theory Spec2Isabelle
  imports Complex_Main "HOL-Library.Word"
begin

unbundle bit_operations_syntax

section \<open>Data model of the cuckoo index (cuckoo.h)\<close>

type_synonym uint16 = "16 word"
type_synonym uint32 = "32 word"
type_synonym Size = "64 word"
type_synonym Datum = "64 word"
type_synonym Oid = "32 word"
type_synonym BlockNumber = "32 word"
type_synonym OffsetNumber = "16 word"

text \<open>
  The host's declarations that the index code uses but does not define: the block size,
  the size of the page header, the strictest alignment and the size of one index tuple.
  They are parameters of every definition below; \<open>pg_default\<close> gives the values of a
  stock 64-bit PostgreSQL build.
\<close>

record PgLayout =
  BLCKSZ :: nat
  SizeOfPageHeaderData :: nat
  MAXIMUM_ALIGNOF :: nat
  sizeof_CuckooTuple :: nat

definition pg_default :: PgLayout where
  "pg_default = \<lparr>BLCKSZ = 8192, SizeOfPageHeaderData = 24, MAXIMUM_ALIGNOF = 8,
                  sizeof_CuckooTuple = 12\<rparr>"

definition MAXALIGN :: "PgLayout \<Rightarrow> nat \<Rightarrow> nat" where
  "MAXALIGN L len = ((len + (MAXIMUM_ALIGNOF L - 1)) div MAXIMUM_ALIGNOF L) * MAXIMUM_ALIGNOF L"

definition MAXALIGN_DOWN :: "PgLayout \<Rightarrow> nat \<Rightarrow> nat" where
  "MAXALIGN_DOWN L len = (len div MAXIMUM_ALIGNOF L) * MAXIMUM_ALIGNOF L"

text \<open>\<open>CuckooPageOpaqueData\<close> is four \<open>uint16\<close> fields; \<open>CuckooOptions\<close> is four 32-bit fields.\<close>

definition sizeof_CuckooPageOpaqueData :: nat where
  "sizeof_CuckooPageOpaqueData = 8"

definition sizeof_CuckooOptions :: nat where
  "sizeof_CuckooOptions = 16"

definition sizeof_BlockNumber :: nat where
  "sizeof_BlockNumber = 4"

record ItemPointerData =
  ip_blkid :: BlockNumber
  ip_posid :: OffsetNumber

record CuckooTuple =
  heapPtr :: ItemPointerData
  fingerprint :: uint32

record CuckooOptions =
  vl_len_ :: uint32
  bitsPerTag :: int
  tagsPerBucket :: int
  maxKicks :: int

definition CUCKOO_META :: uint16 where
  "CUCKOO_META = push_bit 0 1"

definition CUCKOO_DELETED :: uint16 where
  "CUCKOO_DELETED = push_bit 0 2"

definition CUCKOO_PAGE_ID :: uint16 where
  "CUCKOO_PAGE_ID = 0xFF84"

definition CUCKOO_MAGIC_NUMBER :: uint32 where
  "CUCKOO_MAGIC_NUMBER = 0xC0C000CF"

definition InvalidBlockNumber :: BlockNumber where
  "InvalidBlockNumber = 0xFFFFFFFF"

definition CuckooMetaBlockN :: "PgLayout \<Rightarrow> nat" where
  "CuckooMetaBlockN L =
     MAXALIGN_DOWN L (BLCKSZ L - SizeOfPageHeaderData L
                      - MAXALIGN L sizeof_CuckooPageOpaqueData
                      - MAXALIGN L (2 * 2 + 4 + sizeof_CuckooOptions))
     div sizeof_BlockNumber"

text \<open>
  A data page: the three offsets of the host's page header that the code reads or writes,
  the contents area seen as an array of tuple slots (\<open>items ! (off - 1)\<close> is the tuple at
  offset \<open>off\<close>), and the opaque trailer. A page the host has only allocated is all
  zeroes, which \<open>PageIsNew\<close> recognises by \<open>pd_upper = 0\<close>.
\<close>

record Page =
  pd_lower :: uint16
  pd_upper :: uint16
  pd_special :: uint16
  items :: "CuckooTuple list"
  maxoff :: OffsetNumber
  flags :: uint16
  unused :: uint16
  cuckoo_page_id :: uint16

text \<open>The metapage (block 0): its trailer flags and the \<open>CuckooMetaPageData\<close> it holds.\<close>

record CuckooMetaPageData =
  meta_flags :: uint16
  magicNumber :: uint32
  nStart :: uint16
  nEnd :: uint16
  meta_opts :: CuckooOptions
  notFullPage :: "BlockNumber list"

record CuckooState =
  hashFn :: "nat \<Rightarrow> Oid \<Rightarrow> Datum \<Rightarrow> uint32"
  collations :: "nat \<Rightarrow> Oid"
  opts :: CuckooOptions
  nColumns :: int
  sizeOfCuckooTuple :: Size
  tagMask :: uint32
  st_tagsPerBucket :: int
  st_maxKicks :: int

text \<open>
  The index relation: its descriptor (column count, one hash procedure and one collation
  per column, the options given at creation, the cached options), the metapage, the data pages (block \<open>b \<ge> 1\<close> is
  \<open>dataPages ! (b - 1)\<close>) and the pages recorded in the host's free space map.
\<close>

record Relation =
  natts :: int
  hashprocs :: "nat \<Rightarrow> Oid \<Rightarrow> Datum \<Rightarrow> uint32"
  rd_indcollation :: "nat \<Rightarrow> Oid"
  rd_options :: "CuckooOptions option"
  rd_amcache :: "CuckooOptions option"
  metaPage :: CuckooMetaPageData
  dataPages :: "Page list"
  fsm :: "BlockNumber list"

datatype error =
    NotCuckooIndex        \<comment> \<open>"Relation is not a cuckoo index"\<close>
  | EmptyPageRejected     \<comment> \<open>"could not add new cuckoo tuple to empty page"\<close>
  | AlreadyContainsData   \<comment> \<open>"index already contains data"\<close>
  | NoSuchBlock           \<comment> \<open>the host cannot read the requested block as a data page\<close>
  | UndefinedShift        \<comment> \<open>a shift by at least the width of the operand\<close>
  | OutOfBounds           \<comment> \<open>an access outside an allocated array\<close>
  | RelationFull          \<comment> \<open>the host refuses to extend the relation beyond its last block number\<close>

section \<open>ckutils.cpp\<close>

text \<open>
  \<open>1U << n\<close>: the language defines the result only for \<open>0 \<le> n < 32\<close>; any other count
  is undefined behaviour and is an error of the model.
\<close>

definition shl_u32 :: "uint32 \<Rightarrow> int \<Rightarrow> error + uint32" where
  "shl_u32 x n = (if 0 \<le> n \<and> n < 32 then Inr (push_bit (nat n) x) else Inl UndefinedShift)"

definition CuckooPageIsMeta_flags :: "uint16 \<Rightarrow> bool" where
  "CuckooPageIsMeta_flags f = (f AND CUCKOO_META \<noteq> 0)"

text \<open>
  \<open>initCuckooState\<close>: the options come from the relation's cache, which is filled from
  the metapage on first use (and then the metapage is checked).
\<close>

definition initCuckooState :: "PgLayout \<Rightarrow> Relation \<Rightarrow> error + (CuckooState \<times> Relation)" where
  "initCuckooState L index =
     (case (case rd_amcache index of
              Some c \<Rightarrow> Inr (c, index)
            | None \<Rightarrow>
                if \<not> CuckooPageIsMeta_flags (meta_flags (metaPage index)) then Inl NotCuckooIndex
                else if magicNumber (metaPage index) \<noteq> CUCKOO_MAGIC_NUMBER then Inl NotCuckooIndex
                else Inr (meta_opts (metaPage index),
                          index\<lparr>rd_amcache := Some (meta_opts (metaPage index))\<rparr>)) of
        Inl e \<Rightarrow> Inl e
      | Inr (o', index') \<Rightarrow>
          (case shl_u32 1 (bitsPerTag o') of
             Inl e \<Rightarrow> Inl e
           | Inr m \<Rightarrow>
               Inr (\<lparr>hashFn = hashprocs index', collations = rd_indcollation index',
                     opts = o', nColumns = natts index',
                     sizeOfCuckooTuple = of_nat (sizeof_CuckooTuple L),
                     tagMask = m - 1,
                     st_tagsPerBucket = tagsPerBucket o',
                     st_maxKicks = maxKicks o'\<rparr>, index')))"

text \<open>One round of the column loop of \<open>computeFingerprint\<close>.\<close>

definition mix_column :: "CuckooState \<Rightarrow> Datum list \<Rightarrow> bool list \<Rightarrow> nat \<Rightarrow> uint32 \<Rightarrow> uint32" where
  "mix_column state vals isnull i hash =
     (if isnull ! i then hash
      else
        let colHash = hashFn state i (collations state i) (vals ! i);
            h1 = hash XOR colHash;
            h2 = h1 * 0x5bd1e995
        in h2 XOR drop_bit 15 h2)"

definition computeFingerprint :: "CuckooState \<Rightarrow> Datum list \<Rightarrow> bool list \<Rightarrow> uint32" where
  "computeFingerprint state vals isnull =
     (let hash = fold (mix_column state vals isnull) [0 ..< nat (nColumns state)] 0;
          fp = hash AND tagMask state
      in if fp = 0 then 1 else fp)"

definition CuckooFormTuple ::
  "CuckooState \<Rightarrow> ItemPointerData \<Rightarrow> Datum list \<Rightarrow> bool list \<Rightarrow> CuckooTuple" where
  "CuckooFormTuple state iptr vals isnull =
     \<lparr>heapPtr = iptr, fingerprint = computeFingerprint state vals isnull\<rparr>"

definition PageIsNew :: "Page \<Rightarrow> bool" where
  "PageIsNew page = (pd_upper page = 0)"

definition CuckooPageIsDeleted :: "Page \<Rightarrow> bool" where
  "CuckooPageIsDeleted page = (flags page AND CUCKOO_DELETED \<noteq> 0)"

definition CuckooPageSetDeleted :: "Page \<Rightarrow> Page" where
  "CuckooPageSetDeleted page = page\<lparr>flags := flags page OR CUCKOO_DELETED\<rparr>"

text \<open>
  \<open>CuckooPageGetFreeSpace\<close> is computed in the unsigned 64-bit type of \<open>Size\<close>, so it
  wraps around when the tuples counted by \<open>maxoff\<close> do not fit in the block.
\<close>

definition CuckooPageGetFreeSpace :: "PgLayout \<Rightarrow> CuckooState \<Rightarrow> Page \<Rightarrow> Size" where
  "CuckooPageGetFreeSpace L state page =
     of_nat (BLCKSZ L) - of_nat (MAXALIGN L (SizeOfPageHeaderData L))
     - ucast (maxoff page) * sizeOfCuckooTuple state
     - of_nat (MAXALIGN L sizeof_CuckooPageOpaqueData)"

text \<open>Number of whole tuple slots in the contents area of a block.\<close>

definition page_slots :: "PgLayout \<Rightarrow> nat" where
  "page_slots L =
     (BLCKSZ L - MAXALIGN L (SizeOfPageHeaderData L) - MAXALIGN L sizeof_CuckooPageOpaqueData)
     div sizeof_CuckooTuple L"

definition zero_tuple :: CuckooTuple where
  "zero_tuple = \<lparr>heapPtr = \<lparr>ip_blkid = 0, ip_posid = 0\<rparr>, fingerprint = 0\<rparr>"

text \<open>
  \<open>CuckooPageAddItem\<close>: the tuple is copied to slot \<open>maxoff + 1\<close>, then \<open>maxoff\<close> is
  incremented and \<open>pd_lower\<close> set to the offset of the next slot.
\<close>

definition CuckooPageAddItem :: "PgLayout \<Rightarrow> CuckooState \<Rightarrow> Page \<Rightarrow> CuckooTuple \<Rightarrow> bool \<times> Page" where
  "CuckooPageAddItem L state page tuple =
     (if CuckooPageGetFreeSpace L state page < sizeOfCuckooTuple state then (False, page)
      else
        let page1 = page\<lparr>items := (items page)[unat (maxoff page) := tuple]\<rparr>;
            page2 = page1\<lparr>maxoff := maxoff page1 + 1\<rparr>
        in (True,
            page2\<lparr>pd_lower :=
                     of_nat (MAXALIGN L (SizeOfPageHeaderData L))
                     + ucast (ucast (maxoff page2) * sizeOfCuckooTuple state)\<rparr>))"

text \<open>
  \<open>CuckooInitPage\<close>: the host's \<open>PageInit\<close> zeroes the block and sets the header offsets;
  then the trailer is filled in.
\<close>

definition CuckooInitPage :: "PgLayout \<Rightarrow> uint16 \<Rightarrow> Page" where
  "CuckooInitPage L fl =
     \<lparr>pd_lower = of_nat (SizeOfPageHeaderData L),
      pd_upper = of_nat (BLCKSZ L - MAXALIGN L sizeof_CuckooPageOpaqueData),
      pd_special = of_nat (BLCKSZ L - MAXALIGN L sizeof_CuckooPageOpaqueData),
      items = replicate (page_slots L) zero_tuple,
      maxoff = 0, flags = fl, unused = 0, cuckoo_page_id = CUCKOO_PAGE_ID\<rparr>"

section \<open>ckscan.cpp\<close>

text \<open>
  A scan key of the host: \<open>sk_flags\<close> carries \<open>SK_ISNULL\<close>, \<open>sk_attno\<close> is the 1-based
  column number, \<open>sk_argument\<close> the comparison value. The scan descriptor holds the
  key array (its length is \<open>numberOfKeys\<close>) and the \<open>CuckooScanOpaqueData\<close>.
\<close>

record ScanKeyData =
  sk_flags :: uint32
  sk_attno :: int
  sk_argument :: Datum

definition SK_ISNULL :: uint32 where
  "SK_ISNULL = 0x0001"

record IndexScanDesc =
  keyData :: "ScanKeyData list"
  so_fingerprint :: uint32
  fingerprintValid :: bool
  so_state :: CuckooState

text \<open>
  \<open>ckbeginscan\<close>; \<open>keys0\<close> is the content of the key array as the host allocates it
  (not initialised), one entry per key.
\<close>

definition ckbeginscan ::
  "PgLayout \<Rightarrow> Relation \<Rightarrow> ScanKeyData list \<Rightarrow> error + (IndexScanDesc \<times> Relation)" where
  "ckbeginscan L r keys0 =
     (case initCuckooState L r of
        Inl e \<Rightarrow> Inl e
      | Inr (st, r') \<Rightarrow>
          Inr (\<lparr>keyData = keys0, so_fingerprint = 0, fingerprintValid = False,
                so_state = st\<rparr>, r'))"

text \<open>
  \<open>ckrescan\<close>: \<open>scankey\<close> is \<open>None\<close> for a null pointer; the host passes at least as many
  keys as the descriptor holds, and that many are copied.
\<close>

definition ckrescan :: "IndexScanDesc \<Rightarrow> ScanKeyData list option \<Rightarrow> IndexScanDesc" where
  "ckrescan scan scankey =
     (let scan1 = scan\<lparr>fingerprintValid := False\<rparr>
      in case scankey of
           None \<Rightarrow> scan1
         | Some ks \<Rightarrow>
             if length (keyData scan1) > 0
             then scan1\<lparr>keyData := take (length (keyData scan1)) ks\<rparr>
             else scan1)"

text \<open>
  The key loop of \<open>ckgetbitmap\<close>: a key flagged null ends the scan with no match; a key
  whose column number is outside \<open>1 .. nColumns\<close> would write outside the two arrays.
\<close>

datatype key_fill = NullKey | Overrun | Filled "Datum list" "bool list"

fun fill_keys :: "ScanKeyData list \<Rightarrow> Datum list \<Rightarrow> bool list \<Rightarrow> key_fill" where
  "fill_keys [] vals isnull = Filled vals isnull"
| "fill_keys (skey # rest) vals isnull =
     (if sk_flags skey AND SK_ISNULL \<noteq> 0 then NullKey
      else
        let attno = sk_attno skey - 1
        in if 0 \<le> attno \<and> attno < int (length vals)
           then fill_keys rest (vals[nat attno := sk_argument skey]) (isnull[nat attno := False])
           else Overrun)"

text \<open>
  The tuple loop over one page, offsets \<open>1 .. maxoff\<close>: a match appends the row locator
  to the bitmap and counts it.
\<close>

definition scan_tuple ::
  "uint32 \<Rightarrow> Page \<Rightarrow> nat \<Rightarrow> ItemPointerData list \<times> int \<Rightarrow> ItemPointerData list \<times> int" where
  "scan_tuple fp page offset acc =
     (let itup = items page ! (offset - 1)
      in if fingerprint itup = fp then (fst acc @ [heapPtr itup], snd acc + 1) else acc)"

definition scan_page ::
  "uint32 \<Rightarrow> Page \<Rightarrow> ItemPointerData list \<times> int \<Rightarrow> ItemPointerData list \<times> int" where
  "scan_page fp page acc =
     (if \<not> PageIsNew page \<and> \<not> CuckooPageIsDeleted page
      then fold (scan_tuple fp page) [1 ..< Suc (unat (maxoff page))] acc
      else acc)"

text \<open>
  \<open>ckgetbitmap\<close>: the result is the count \<open>ntids\<close>, the scan descriptor (with the
  cached fingerprint) and the bitmap, as the list of row locators added so far.
\<close>

definition ckgetbitmap ::
  "Relation \<Rightarrow> IndexScanDesc \<Rightarrow> ItemPointerData list
     \<Rightarrow> error + (int \<times> IndexScanDesc \<times> ItemPointerData list)" where
  "ckgetbitmap index scan tbm =
     (let n = nat (nColumns (so_state scan));
          walk = (\<lambda>scan'.
             let (tbm', ntids) = fold (scan_page (so_fingerprint scan')) (dataPages index) (tbm, 0)
             in Inr (ntids, scan', tbm'))
      in if \<not> fingerprintValid scan
         then (case fill_keys (keyData scan) (replicate n 0) (replicate n True) of
                 NullKey \<Rightarrow> Inr (0, scan, tbm)
               | Overrun \<Rightarrow> Inl OutOfBounds
               | Filled vals isnull \<Rightarrow>
                   walk (scan\<lparr>so_fingerprint := computeFingerprint (so_state scan) vals isnull,
                               fingerprintValid := True\<rparr>))
         else walk scan)"

section \<open>ckvacuum.cpp\<close>

text \<open>
  The liveness callback of the host says whether a row locator is dead. The statistics
  record counts in \<open>double\<close>; the counts stay far below \<open>2 ^ 53\<close>, where \<open>double\<close> is exact,
  so they are integers here.
\<close>

record IndexBulkDeleteResult =
  num_pages :: int
  tuples_removed :: int
  num_index_tuples :: int
  pages_free :: int

definition palloc0_stats :: IndexBulkDeleteResult where
  "palloc0_stats = \<lparr>num_pages = 0, tuples_removed = 0, num_index_tuples = 0, pages_free = 0\<rparr>"

text \<open>
  The tuple loop of \<open>ckbulkdelete\<close> on the registered copy of one page: \<open>itup\<close> is the
  slot examined, \<open>itupPtr\<close> the slot where the next surviving tuple goes, \<open>itupEnd\<close> the
  slot after the last tuple the page had when the loop began.
\<close>

function compact_loop ::
  "(ItemPointerData \<Rightarrow> bool) \<Rightarrow> nat \<Rightarrow> Page \<Rightarrow> nat \<Rightarrow> nat \<Rightarrow> int \<Rightarrow> Page \<times> nat \<times> nat \<times> int" where
  "compact_loop callback itupEnd page itup itupPtr removed =
     (if itup < itupEnd then
        if callback (heapPtr (items page ! itup))
        then compact_loop callback itupEnd (page\<lparr>maxoff := maxoff page - 1\<rparr>)
               (itup + 1) itupPtr (removed + 1)
        else compact_loop callback itupEnd
               (if itupPtr \<noteq> itup
                then page\<lparr>items := (items page)[itupPtr := items page ! itup]\<rparr>
                else page)
               (itup + 1) (itupPtr + 1) removed
      else (page, itup, itupPtr, removed))"
  by pat_completeness auto
termination
  by (relation "measure (\<lambda>(callback, itupEnd, page, itup, itupPtr, removed). itupEnd - itup)") auto

text \<open>
  One iteration of the block loop, for the block \<open>i + 1\<close>. The state is the data pages,
  the entries written to the local \<open>notFullPage\<close> array so far (\<open>countPage\<close> is their
  number) and \<open>tuples_removed\<close>. Committing the registered copy stores it; aborting
  drops it.
\<close>

definition bulkdelete_block ::
  "PgLayout \<Rightarrow> CuckooState \<Rightarrow> (ItemPointerData \<Rightarrow> bool) \<Rightarrow> nat
     \<Rightarrow> Page list \<times> BlockNumber list \<times> int \<Rightarrow> Page list \<times> BlockNumber list \<times> int" where
  "bulkdelete_block L state callback i acc =
     (case acc of (pages, nfp, removed) \<Rightarrow>
        let page = pages ! i
        in if PageIsNew page \<or> CuckooPageIsDeleted page then (pages, nfp, removed)
           else
             case compact_loop callback (unat (maxoff page)) page 0 0 removed of
               (page1, itup, itupPtr, removed1) \<Rightarrow>
                 let nfp1 =
                       (if maxoff page1 \<noteq> 0
                           \<and> sizeOfCuckooTuple state \<le> CuckooPageGetFreeSpace L state page1
                           \<and> int (length nfp) < int (CuckooMetaBlockN L)
                        then nfp @ [of_nat (i + 1)] else nfp)
                 in if itupPtr \<noteq> itup then
                      let page2 = (if maxoff page1 = 0 then CuckooPageSetDeleted page1 else page1);
                          page3 = page2\<lparr>pd_lower :=
                                    of_nat (MAXALIGN L (SizeOfPageHeaderData L))
                                    + ucast (of_nat itupPtr * sizeOfCuckooTuple state)\<rparr>
                      in (pages[i := page3], nfp1, removed1)
                    else (pages, nfp1, removed1))"

definition ckbulkdelete ::
  "PgLayout \<Rightarrow> Relation \<Rightarrow> IndexBulkDeleteResult option \<Rightarrow> (ItemPointerData \<Rightarrow> bool)
     \<Rightarrow> error + (IndexBulkDeleteResult \<times> Relation)" where
  "ckbulkdelete L index stats callback =
     (let stats1 = (case stats of None \<Rightarrow> palloc0_stats | Some s \<Rightarrow> s)
      in case initCuckooState L index of
           Inl e \<Rightarrow> Inl e
         | Inr (state, index1) \<Rightarrow>
             (case fold (bulkdelete_block L state callback) [0 ..< length (dataPages index1)]
                     (dataPages index1, [], tuples_removed stats1) of
                (pages, nfp, removed) \<Rightarrow>
                  let metaData = metaPage index1;
                      metaData1 = metaData\<lparr>notFullPage := nfp @ drop (length nfp) (notFullPage metaData),
                                           nStart := 0, nEnd := of_nat (length nfp)\<rparr>
                  in Inr (stats1\<lparr>tuples_removed := removed\<rparr>,
                          index1\<lparr>dataPages := pages, metaPage := metaData1\<rparr>)))"

section \<open>ckinsert.cpp\<close>

text \<open>
  \<open>ReadBuffer\<close> on a data block: the host raises for a block beyond the end of the
  relation. Block 0 is the metapage and is never a candidate data page.
\<close>

definition read_data_page :: "Relation \<Rightarrow> BlockNumber \<Rightarrow> error + Page" where
  "read_data_page index blkno =
     (if 1 \<le> unat blkno \<and> unat blkno \<le> length (dataPages index)
      then Inr (dataPages index ! (unat blkno - 1)) else Inl NoSuchBlock)"

definition write_data_page :: "Relation \<Rightarrow> BlockNumber \<Rightarrow> Page \<Rightarrow> Relation" where
  "write_data_page index blkno page =
     index\<lparr>dataPages := (dataPages index)[unat blkno - 1 := page]\<rparr>"

text \<open>A block as the host hands it out when it extends the relation: all zeroes.\<close>

definition new_page :: "PgLayout \<Rightarrow> Page" where
  "new_page L =
     \<lparr>pd_lower = 0, pd_upper = 0, pd_special = 0,
      items = replicate (page_slots L) zero_tuple,
      maxoff = 0, flags = 0, unused = 0, cuckoo_page_id = 0\<rparr>"

definition MaxBlockNumber :: nat where
  "MaxBlockNumber = 0xFFFFFFFE"

text \<open>
  \<open>CuckooNewBuffer\<close>: take blocks from the free space map until one is new or deleted
  (taking a block removes it from the map); with none left, extend the relation by one
  block, which the host refuses once the relation (the metapage and the data pages) would
  reach \<open>MaxBlockNumber\<close> blocks.
\<close>

fun CuckooNewBuffer_fsm :: "Relation \<Rightarrow> BlockNumber list \<Rightarrow> error + (BlockNumber option \<times> BlockNumber list)" where
  "CuckooNewBuffer_fsm index [] = Inr (None, [])"
| "CuckooNewBuffer_fsm index (blkno # rest) =
     (case read_data_page index blkno of
        Inl e \<Rightarrow> Inl e
      | Inr page \<Rightarrow>
          if PageIsNew page then Inr (Some blkno, rest)
          else if CuckooPageIsDeleted page then Inr (Some blkno, rest)
          else CuckooNewBuffer_fsm index rest)"

definition CuckooNewBuffer :: "PgLayout \<Rightarrow> Relation \<Rightarrow> error + (BlockNumber \<times> Relation)" where
  "CuckooNewBuffer L index =
     (case CuckooNewBuffer_fsm index (fsm index) of
        Inl e \<Rightarrow> Inl e
      | Inr (Some blkno, rest) \<Rightarrow> Inr (blkno, index\<lparr>fsm := rest\<rparr>)
      | Inr (None, rest) \<Rightarrow>
          if MaxBlockNumber \<le> length (dataPages index) + 1 + 1 then Inl RelationFull
          else Inr (of_nat (length (dataPages index) + 1),
                    index\<lparr>fsm := rest, dataPages := dataPages index @ [new_page L]\<rparr>))"

text \<open>
  The attempt made on each candidate block: register the page, initialise it if it is
  new or deleted, and try to append.
\<close>

definition try_append :: "PgLayout \<Rightarrow> CuckooState \<Rightarrow> Page \<Rightarrow> CuckooTuple \<Rightarrow> bool \<times> Page" where
  "try_append L state page itup =
     CuckooPageAddItem L state
       (if PageIsNew page \<or> CuckooPageIsDeleted page then CuckooInitPage L 0 else page) itup"

text \<open>
  The loop of the slow path of \<open>ckinsert\<close> over the ring buffer entries from \<open>nStart\<close>
  on. \<open>Inr (Some index')\<close>: a candidate took the tuple; \<open>Inr None\<close>: the loop left at
  \<open>nStart \<ge> nEnd\<close>.
\<close>

function insert_walk ::
  "PgLayout \<Rightarrow> CuckooState \<Rightarrow> Relation \<Rightarrow> CuckooTuple \<Rightarrow> uint16 \<Rightarrow> error + Relation option" where
  "insert_walk L state index itup nStart' =
     (let metaData = metaPage index
      in if nEnd metaData \<le> nStart' then Inr None
         else if length (notFullPage metaData) \<le> unat nStart' then Inl OutOfBounds
         else
           let blkno = notFullPage metaData ! unat nStart'
           in case read_data_page index blkno of
                Inl e \<Rightarrow> Inl e
              | Inr page \<Rightarrow>
                  (case try_append L state page itup of
                     (True, page') \<Rightarrow>
                       Inr (Some ((write_data_page index blkno page')
                                    \<lparr>metaPage := metaData\<lparr>nStart := nStart'\<rparr>\<rparr>))
                   | (False, page') \<Rightarrow> insert_walk L state index itup (nStart' + 1)))"
  by pat_completeness auto
termination
proof (relation "measure (\<lambda>(L, state, index, itup, nStart'). unat (nEnd (metaPage index)) - unat nStart')")
  show "wf (measure (\<lambda>(L, state, index, itup, nStart'). unat (nEnd (metaPage index)) - unat nStart'))"
    by simp
next
  fix L :: PgLayout and state :: CuckooState and index :: Relation and itup :: CuckooTuple
    and nStart' :: uint16 and x
  assume a: "x = metaPage index" "\<not> nEnd x \<le> nStart'"
  from a have lt: "nStart' < nEnd (metaPage index)" by simp
  then have "unat nStart' < unat (nEnd (metaPage index))" by (simp add: word_less_nat_alt)
  moreover have "unat (nStart' + 1) = unat nStart' + 1"
    using lt by unat_arith
  ultimately show "((L, state, index, itup, nStart' + 1), (L, state, index, itup, nStart'))
     \<in> measure (\<lambda>(L, state, index, itup, nStart'). unat (nEnd (metaPage index)) - unat nStart')"
    by simp
qed

text \<open>
  The three parts of \<open>ckinsert\<close>, last first: the allocation of a new page, which resets
  the ring buffer to that page alone; the slow path, which skips the entry the fast path
  has tried and walks the rest; and the fast path on the first entry. Committing the
  registered copies stores them; aborting drops them.
\<close>

definition insert_new_page ::
  "PgLayout \<Rightarrow> CuckooState \<Rightarrow> Relation \<Rightarrow> CuckooTuple \<Rightarrow> error + Relation" where
  "insert_new_page L ckstate index itup =
     (case CuckooNewBuffer L index of
        Inl e \<Rightarrow> Inl e
      | Inr (newblk, index2) \<Rightarrow>
          (case CuckooPageAddItem L ckstate (CuckooInitPage L 0) itup of
             (False, page') \<Rightarrow> Inl EmptyPageRejected
           | (True, page') \<Rightarrow>
               Inr ((write_data_page index2 newblk page')
                      \<lparr>metaPage := (metaPage index)
                         \<lparr>nStart := 0, nEnd := 1,
                          notFullPage := (notFullPage (metaPage index))[0 := newblk]\<rparr>\<rparr>)))"

definition insert_slow ::
  "PgLayout \<Rightarrow> CuckooState \<Rightarrow> Relation \<Rightarrow> CuckooTuple \<Rightarrow> BlockNumber \<Rightarrow> error + Relation" where
  "insert_slow L ckstate index itup blkno =
     (let metaData = metaPage index;
          nStart0 = nStart metaData;
          nStart1 = (if nStart0 < nEnd metaData \<and> blkno = notFullPage metaData ! unat nStart0
                     then nStart0 + 1 else nStart0)
      in case insert_walk L ckstate index itup nStart1 of
           Inl e \<Rightarrow> Inl e
         | Inr (Some index') \<Rightarrow> Inr index'
         | Inr None \<Rightarrow> insert_new_page L ckstate index itup)"

definition ckinsert ::
  "PgLayout \<Rightarrow> Relation \<Rightarrow> Datum list \<Rightarrow> bool list \<Rightarrow> ItemPointerData \<Rightarrow> error + Relation" where
  "ckinsert L index0 vals isnull ht_ctid =
     (case initCuckooState L index0 of
        Inl e \<Rightarrow> Inl e
      | Inr (ckstate, index) \<Rightarrow>
          let itup = CuckooFormTuple ckstate ht_ctid vals isnull;
              metaData = metaPage index
          in if nStart metaData < nEnd metaData then
               if length (notFullPage metaData) \<le> unat (nStart metaData) then Inl OutOfBounds
               else
                 let blkno = notFullPage metaData ! unat (nStart metaData)
                 in case read_data_page index blkno of
                      Inl e \<Rightarrow> Inl e
                    | Inr page \<Rightarrow>
                        (case try_append L ckstate page itup of
                           (True, page') \<Rightarrow> Inr (write_data_page index blkno page')
                         | (False, page') \<Rightarrow> insert_slow L ckstate index itup blkno)
             else insert_slow L ckstate index itup InvalidBlockNumber)"

text \<open>
  \<open>CuckooInitMetapage\<close> on a relation without blocks: block 0 becomes the metapage, filled
  by \<open>CuckooFillMetapage\<close> with the creation options, or the defaults when there are none.
\<close>

definition makeDefaultCuckooOptions :: CuckooOptions where
  "makeDefaultCuckooOptions = \<lparr>vl_len_ = 16, bitsPerTag = 12, tagsPerBucket = 4, maxKicks = 500\<rparr>"

definition CuckooFillMetapage :: "PgLayout \<Rightarrow> Relation \<Rightarrow> CuckooMetaPageData" where
  "CuckooFillMetapage L index =
     \<lparr>meta_flags = CUCKOO_META, magicNumber = CUCKOO_MAGIC_NUMBER, nStart = 0, nEnd = 0,
      meta_opts = (case rd_options index of None \<Rightarrow> makeDefaultCuckooOptions | Some o' \<Rightarrow> o'),
      notFullPage = replicate (CuckooMetaBlockN L) 0\<rparr>"

definition CuckooInitMetapage :: "PgLayout \<Rightarrow> Relation \<Rightarrow> Relation" where
  "CuckooInitMetapage L index = index\<lparr>metaPage := CuckooFillMetapage L index, dataPages := []\<rparr>"

text \<open>
  The serial build. \<open>CuckooBuildState\<close> holds the index state, the tuple count and the
  cached page with the number of tuples on it; \<open>flushCachedPage\<close> copies the cached page
  into a block from \<open>CuckooNewBuffer\<close>.
\<close>

record CuckooBuildState =
  bs_ckstate :: CuckooState
  indtuples :: int
  bs_data :: Page
  bs_count :: int

definition flushCachedPage :: "PgLayout \<Rightarrow> Relation \<Rightarrow> CuckooBuildState \<Rightarrow> error + Relation" where
  "flushCachedPage L index buildstate =
     (case CuckooNewBuffer L index of
        Inl e \<Rightarrow> Inl e
      | Inr (blkno, index') \<Rightarrow> Inr (write_data_page index' blkno (bs_data buildstate)))"

definition initCachedPage :: "PgLayout \<Rightarrow> CuckooBuildState \<Rightarrow> CuckooBuildState" where
  "initCachedPage L buildstate = buildstate\<lparr>bs_data := CuckooInitPage L 0, bs_count := 0\<rparr>"

definition cuckooBuildCallback ::
  "PgLayout \<Rightarrow> ItemPointerData \<Rightarrow> Datum list \<Rightarrow> bool list
     \<Rightarrow> Relation \<times> CuckooBuildState \<Rightarrow> error + (Relation \<times> CuckooBuildState)" where
  "cuckooBuildCallback L tid vals isnull acc =
     (case acc of (index, buildstate) \<Rightarrow>
        let itup = CuckooFormTuple (bs_ckstate buildstate) tid vals isnull
        in case CuckooPageAddItem L (bs_ckstate buildstate) (bs_data buildstate) itup of
             (True, page') \<Rightarrow>
               Inr (index, buildstate\<lparr>bs_data := page', bs_count := bs_count buildstate + 1,
                                       indtuples := indtuples buildstate + 1\<rparr>)
           | (False, page') \<Rightarrow>
               (case flushCachedPage L index buildstate of
                  Inl e \<Rightarrow> Inl e
                | Inr index' \<Rightarrow>
                    let buildstate1 = initCachedPage L buildstate
                    in case CuckooPageAddItem L (bs_ckstate buildstate1) (bs_data buildstate1) itup of
                         (False, page'') \<Rightarrow> Inl EmptyPageRejected
                       | (True, page'') \<Rightarrow>
                           Inr (index', buildstate1\<lparr>bs_data := page'',
                                                     bs_count := bs_count buildstate1 + 1,
                                                     indtuples := indtuples buildstate1 + 1\<rparr>)))"

text \<open>
  The heap scan of the host calls the callback once per row, in order; a row is its
  locator, its column values and their null flags.
\<close>

fun build_scan ::
  "PgLayout \<Rightarrow> (ItemPointerData \<times> Datum list \<times> bool list) list
     \<Rightarrow> Relation \<times> CuckooBuildState \<Rightarrow> error + (Relation \<times> CuckooBuildState)" where
  "build_scan L [] acc = Inr acc"
| "build_scan L ((tid, vals, isnull) # rows) acc =
     (case cuckooBuildCallback L tid vals isnull acc of
        Inl e \<Rightarrow> Inl e
      | Inr acc' \<Rightarrow> build_scan L rows acc')"

record IndexBuildResult =
  heap_tuples :: int
  index_tuples :: int

text \<open>
  \<open>ckbuild\<close>, serial path; \<open>nblocks\<close> is what the host reports as the number of blocks of
  the index when the build begins.
\<close>

definition ckbuild ::
  "PgLayout \<Rightarrow> nat \<Rightarrow> Relation \<Rightarrow> (ItemPointerData \<times> Datum list \<times> bool list) list
     \<Rightarrow> error + (IndexBuildResult \<times> Relation)" where
  "ckbuild L nblocks index rows =
     (if nblocks \<noteq> 0 then Inl AlreadyContainsData
      else
        case initCuckooState L (CuckooInitMetapage L index) of
          Inl e \<Rightarrow> Inl e
        | Inr (ckstate, index1) \<Rightarrow>
            let buildstate = initCachedPage L
                  \<lparr>bs_ckstate = ckstate, indtuples = 0, bs_data = new_page L, bs_count = 0\<rparr>
            in case build_scan L rows (index1, buildstate) of
                 Inl e \<Rightarrow> Inl e
               | Inr (index2, buildstate') \<Rightarrow>
                   (case (if bs_count buildstate' > 0
                          then flushCachedPage L index2 buildstate' else Inr index2) of
                      Inl e \<Rightarrow> Inl e
                    | Inr index3 \<Rightarrow>
                        Inr (\<lparr>heap_tuples = int (length rows),
                              index_tuples = indtuples buildstate'\<rparr>, index3)))"

section \<open>ckcost.cpp\<close>

text \<open>
  \<open>1ULL << n\<close> is defined for \<open>0 \<le> n < 64\<close>. The quotient is a small integer over a power
  of two and the comparisons are exact, so the \<open>double\<close> arithmetic of
  \<open>calculateFalsePositiveRate\<close> is the arithmetic of the reals on these values.
\<close>

definition shl_u64 :: "64 word \<Rightarrow> int \<Rightarrow> error + 64 word" where
  "shl_u64 x n = (if 0 \<le> n \<and> n < 64 then Inr (push_bit (nat n) x) else Inl UndefinedShift)"

definition calculateFalsePositiveRate :: "int \<Rightarrow> int \<Rightarrow> error + real" where
  "calculateFalsePositiveRate bitsPerTag' tagsPerBucket' =
     (case shl_u64 1 bitsPerTag' of
        Inl e \<Rightarrow> Inl e
      | Inr d \<Rightarrow>
          let denominator = real (unat d);
              fpr = (2.0 * real_of_int tagsPerBucket') / denominator;
              fpr1 = (if fpr > 1.0 then 1.0 else fpr);
              fpr2 = (if fpr1 < 0.0001 then 0.0001 else fpr1)
          in Inr fpr2)"

section \<open>Well-formed layouts, pages and scans\<close>

text \<open>
  A layout of the host: tuples have a size, a block is at most 32 kB and holds the page
  header, the trailer and at least one tuple, and the metapage has room for at least one
  free-list entry.
\<close>

definition layout_ok :: "PgLayout \<Rightarrow> bool" where
  "layout_ok L =
     (0 < sizeof_CuckooTuple L \<and> BLCKSZ L \<le> 32768 \<and>
      MAXALIGN L (SizeOfPageHeaderData L) + MAXALIGN L sizeof_CuckooPageOpaqueData
        + sizeof_CuckooTuple L \<le> BLCKSZ L \<and>
      0 < CuckooMetaBlockN L)"

text \<open>A data page of the index: its slot array fills the contents area and \<open>maxoff\<close> counts slots of it.\<close>

definition page_ok :: "PgLayout \<Rightarrow> Page \<Rightarrow> bool" where
  "page_ok L p = (length (items p) = page_slots L \<and> unat (maxoff p) \<le> page_slots L)"

text \<open>
  What an equality scan for the fingerprint \<open>fp\<close> is to report: the row locators of the
  tuples at offsets \<open>1 .. maxoff\<close> of the pages that are neither new nor deleted, whose
  stored fingerprint is \<open>fp\<close>, in page and offset order.
\<close>

definition page_matches :: "uint32 \<Rightarrow> Page \<Rightarrow> ItemPointerData list" where
  "page_matches fp page =
     (if \<not> PageIsNew page \<and> \<not> CuckooPageIsDeleted page
      then map heapPtr (filter (\<lambda>t. fingerprint t = fp) (take (unat (maxoff page)) (items page)))
      else [])"

definition index_matches :: "uint32 \<Rightarrow> Relation \<Rightarrow> ItemPointerData list" where
  "index_matches fp index = concat (map (page_matches fp) (dataPages index))"

definition slots_ok :: "Relation \<Rightarrow> bool" where
  "slots_ok index = list_all (\<lambda>p. unat (maxoff p) \<le> length (items p)) (dataPages index)"

text \<open>The tuple \<open>t\<close> is stored: it is at an offset in use of a page that is neither new nor deleted.\<close>

definition tuple_stored :: "Relation \<Rightarrow> CuckooTuple \<Rightarrow> bool" where
  "tuple_stored index t =
     list_ex (\<lambda>p. \<not> PageIsNew p \<and> \<not> CuckooPageIsDeleted p
                 \<and> t \<in> set (take (unat (maxoff p)) (items p))) (dataPages index)"

definition null_key :: "ScanKeyData \<Rightarrow> bool" where
  "null_key k = (sk_flags k AND SK_ISNULL \<noteq> 0)"

text \<open>Every key is on an indexed column: its column number is in \<open>1 .. n\<close>.\<close>

definition keys_on_columns :: "nat \<Rightarrow> ScanKeyData list \<Rightarrow> bool" where
  "keys_on_columns n ks = list_all (\<lambda>k. 1 \<le> sk_attno k \<and> sk_attno k \<le> int n) ks"

text \<open>
  The keys supply the non-null column values of a row: no key is flagged null, each key
  is on a non-null column of the row and carries the row's value, and every non-null
  column of the row has a key.
\<close>

definition key_of_row :: "Datum list \<Rightarrow> bool list \<Rightarrow> ScanKeyData \<Rightarrow> bool" where
  "key_of_row vals isnull k =
     (\<not> null_key k \<and> 1 \<le> sk_attno k \<and> sk_attno k \<le> int (length vals)
      \<and> \<not> isnull ! nat (sk_attno k - 1)
      \<and> sk_argument k = vals ! nat (sk_attno k - 1))"

definition keys_supply :: "ScanKeyData list \<Rightarrow> Datum list \<Rightarrow> bool list \<Rightarrow> bool" where
  "keys_supply ks vals isnull =
     (length isnull = length vals \<and>
      list_all (key_of_row vals isnull) ks \<and>
      list_all (\<lambda>i. isnull ! i \<or> list_ex (\<lambda>k. sk_attno k = int i + 1) ks) [0 ..< length vals])"

text \<open>
  The state of a scan descriptor between calls: a fingerprint marked valid is the one
  computed from the current keys. \<open>ckbeginscan\<close> and \<open>ckrescan\<close> establish it and
  \<open>ckgetbitmap\<close> keeps it.
\<close>

definition scan_inv :: "IndexScanDesc \<Rightarrow> bool" where
  "scan_inv scan =
     (fingerprintValid scan \<longrightarrow>
        (case fill_keys (keyData scan) (replicate (nat (nColumns (so_state scan))) 0)
                (replicate (nat (nColumns (so_state scan))) True) of
           Filled vals isnull \<Rightarrow> so_fingerprint scan = computeFingerprint (so_state scan) vals isnull
         | _ \<Rightarrow> False))"


section \<open>A concrete index\<close>

text \<open>
  A one-column index with the default options on the stock layout, whose hash procedure
  takes the low 32 bits of the value. The examples below are evaluated on it.
\<close>

definition demo_rel :: Relation where
  "demo_rel =
     \<lparr>natts = 1, hashprocs = (\<lambda>i coll d. ucast d), rd_indcollation = (\<lambda>i. 0),
      rd_options = None, rd_amcache = None,
      metaPage = \<lparr>meta_flags = 0, magicNumber = 0, nStart = 0, nEnd = 0,
                  meta_opts = makeDefaultCuckooOptions, notFullPage = []\<rparr>,
      dataPages = [], fsm = []\<rparr>"

definition demo_state :: CuckooState where
  "demo_state =
     \<lparr>hashFn = (\<lambda>i coll d. ucast d), collations = (\<lambda>i. 0),
      opts = makeDefaultCuckooOptions, nColumns = 1,
      sizeOfCuckooTuple = 12, tagMask = 0xFFF, st_tagsPerBucket = 4, st_maxKicks = 500\<rparr>"

definition demo_tid :: ItemPointerData where
  "demo_tid = \<lparr>ip_blkid = 7, ip_posid = 3\<rparr>"


definition demo_tid2 :: ItemPointerData where
  "demo_tid2 = \<lparr>ip_blkid = 7, ip_posid = 4\<rparr>"

definition demo_row_tuple :: CuckooTuple where
  "demo_row_tuple = CuckooFormTuple demo_state demo_tid [42] [False]"

definition demo_index :: Relation where
  "demo_index =
     demo_rel\<lparr>metaPage := CuckooFillMetapage pg_default demo_rel,
              dataPages := [(CuckooInitPage pg_default 0)
                              \<lparr>items := demo_row_tuple # \<lparr>heapPtr = demo_tid2, fingerprint = 1\<rparr>
                                          # replicate 678 zero_tuple,
                               maxoff := 2\<rparr>]\<rparr>"

definition demo_scan :: "ScanKeyData list \<Rightarrow> IndexScanDesc" where
  "demo_scan ks = \<lparr>keyData = ks, so_fingerprint = 0, fingerprintValid = False, so_state = demo_state\<rparr>"

definition demo_opts32 :: CuckooOptions where
  "demo_opts32 = \<lparr>vl_len_ = 16, bitsPerTag = 32, tagsPerBucket = 4, maxKicks = 500\<rparr>"

definition demo_rel32 :: Relation where
  "demo_rel32 = CuckooInitMetapage pg_default (demo_rel\<lparr>rd_options := Some demo_opts32\<rparr>)"

definition demo_index_listed :: Relation where
  "demo_index_listed =
     demo_index\<lparr>metaPage := (metaPage demo_index)
                  \<lparr>nEnd := 1, notFullPage := (notFullPage (metaPage demo_index))[0 := 1]\<rparr>\<rparr>"

text \<open>
  What bulk delete is to leave of a page: the tuples in use whose row locator the
  callback does not report dead, in their order; and the number of those it reports dead.
\<close>

definition live_page :: "Page \<Rightarrow> bool" where
  "live_page p = (\<not> PageIsNew p \<and> \<not> CuckooPageIsDeleted p)"

definition kept_tuples :: "(ItemPointerData \<Rightarrow> bool) \<Rightarrow> Page \<Rightarrow> CuckooTuple list" where
  "kept_tuples callback p =
     filter (\<lambda>t. \<not> callback (heapPtr t)) (take (unat (maxoff p)) (items p))"

definition dead_count :: "(ItemPointerData \<Rightarrow> bool) \<Rightarrow> Page \<Rightarrow> nat" where
  "dead_count callback p =
     length (filter (\<lambda>t. callback (heapPtr t)) (take (unat (maxoff p)) (items p)))"

text \<open>Two pages with the same header offsets and the same trailer fields other than \<open>maxoff\<close>.\<close>

definition same_frame :: "Page \<Rightarrow> Page \<Rightarrow> bool" where
  "same_frame p q =
     (pd_lower p = pd_lower q \<and> pd_upper p = pd_upper q \<and> pd_special p = pd_special q \<and>
      flags p = flags q \<and> unused p = unused q \<and> cuckoo_page_id p = cuckoo_page_id q)"

text \<open>
  The relation between a page before and after bulk delete with the callback: a page
  that is new or deleted stays as it is; of any other page the tuples in use are the
  kept ones, with \<open>maxoff\<close> their number; without a dead tuple the page is as before;
  with dead tuples and nothing kept it is flagged deleted.
\<close>

definition vacuumed :: "(ItemPointerData \<Rightarrow> bool) \<Rightarrow> Page \<Rightarrow> Page \<Rightarrow> bool" where
  "vacuumed callback p p' =
     (if live_page p
      then take (unat (maxoff p')) (items p') = kept_tuples callback p
           \<and> unat (maxoff p') = length (kept_tuples callback p)
           \<and> (dead_count callback p = 0 \<longrightarrow> p' = p)
           \<and> (0 < dead_count callback p \<and> kept_tuples callback p = [] \<longrightarrow> CuckooPageIsDeleted p')
      else p' = p)"

text \<open>
  What bulk delete leaves of a page besides its tuples: the slot array keeps its length,
  \<open>pd_upper\<close> stays, and the flags stay unless no tuple is kept.
\<close>

definition kept_frame :: "(ItemPointerData \<Rightarrow> bool) \<Rightarrow> Page \<Rightarrow> Page \<Rightarrow> bool" where
  "kept_frame callback p p' =
     (length (items p') = length (items p) \<and> pd_upper p' = pd_upper p
      \<and> (kept_tuples callback p \<noteq> [] \<longrightarrow> flags p' = flags p))"

definition has_room :: "PgLayout \<Rightarrow> CuckooState \<Rightarrow> Page \<Rightarrow> bool" where
  "has_room L state p = (sizeOfCuckooTuple state \<le> CuckooPageGetFreeSpace L state p)"

section \<open>The free-list ring buffer\<close>

text \<open>
  The entries of the ring buffer from position \<open>k\<close> up to \<open>nEnd\<close>, and whether the block
  an entry names can be read as a data page with room for one more tuple.
\<close>

definition freelist_from :: "nat \<Rightarrow> Relation \<Rightarrow> BlockNumber list" where
  "freelist_from k index =
     map (\<lambda>i. notFullPage (metaPage index) ! i) [k ..< unat (nEnd (metaPage index))]"

definition entry_has_room :: "PgLayout \<Rightarrow> CuckooState \<Rightarrow> Relation \<Rightarrow> BlockNumber \<Rightarrow> bool" where
  "entry_has_room L state index blkno =
     (case read_data_page index blkno of Inr p \<Rightarrow> has_room L state p | Inl e \<Rightarrow> False)"

text \<open>Every entry between \<open>nStart\<close> and \<open>nEnd\<close> names a page with room.\<close>

definition freelist_ok :: "PgLayout \<Rightarrow> CuckooState \<Rightarrow> Relation \<Rightarrow> bool" where
  "freelist_ok L state index =
     list_all (entry_has_room L state index) (freelist_from (unat (nStart (metaPage index))) index)"

text \<open>Every entry after the one at \<open>nStart\<close>, and before \<open>nEnd\<close>, names a page with room.\<close>

definition freelist_tail_ok :: "PgLayout \<Rightarrow> CuckooState \<Rightarrow> Relation \<Rightarrow> bool" where
  "freelist_tail_ok L state index =
     list_all (entry_has_room L state index)
       (freelist_from (Suc (unat (nStart (metaPage index)))) index)"

definition pages_ok :: "PgLayout \<Rightarrow> Relation \<Rightarrow> bool" where
  "pages_ok L index = list_all (page_ok L) (dataPages index)"

text \<open>
  The states of an index: as a build leaves it (data pages of the index and an empty ring
  buffer), and then after any successful \<open>ckinsert\<close> or \<open>ckbulkdelete\<close>.
\<close>

inductive reachable :: "PgLayout \<Rightarrow> Relation \<Rightarrow> bool" for L :: PgLayout where
  built:
    "nStart (metaPage index) = 0 \<Longrightarrow> nEnd (metaPage index) = 0 \<Longrightarrow>
     length (notFullPage (metaPage index)) = CuckooMetaBlockN L \<Longrightarrow>
     pages_ok L index \<Longrightarrow> length (dataPages index) + 1 < MaxBlockNumber \<Longrightarrow>
     reachable L index"
| inserted:
    "reachable L index \<Longrightarrow> ckinsert L index vals isnull ht_ctid = Inr index' \<Longrightarrow>
     reachable L index'"
| vacuumed:
    "reachable L index \<Longrightarrow> ckbulkdelete L index stats callback = Inr (stats', index') \<Longrightarrow>
     reachable L index'"

text \<open>What every such state satisfies.\<close>

definition freelist_inv :: "PgLayout \<Rightarrow> CuckooState \<Rightarrow> Relation \<Rightarrow> bool" where
  "freelist_inv L state index =
     (length (notFullPage (metaPage index)) = CuckooMetaBlockN L
      \<and> unat (nEnd (metaPage index)) \<le> CuckooMetaBlockN L
      \<and> distinct (freelist_from (unat (nStart (metaPage index))) index)
      \<and> freelist_tail_ok L state index
      \<and> pages_ok L index
      \<and> length (dataPages index) + 1 < MaxBlockNumber)"

text \<open>
  The index after \<open>k\<close> inserts of the same row into the empty index on the stock layout:
  one data page, which the ring buffer names, holding \<open>k\<close> tuples.
\<close>

primrec demo_page_n :: "nat \<Rightarrow> Page" where
  "demo_page_n 0 = CuckooInitPage pg_default 0"
| "demo_page_n (Suc k) = snd (CuckooPageAddItem pg_default demo_state (demo_page_n k) demo_row_tuple)"

definition demo_built :: Relation where
  "demo_built = CuckooInitMetapage pg_default demo_rel"

definition demo_filled :: "nat \<Rightarrow> Relation" where
  "demo_filled k =
     demo_built\<lparr>rd_amcache := Some makeDefaultCuckooOptions,
                metaPage := (metaPage demo_built)
                  \<lparr>nStart := 0, nEnd := 1,
                   notFullPage := (notFullPage (metaPage demo_built))[0 := 1]\<rparr>,
                dataPages := [demo_page_n k]\<rparr>"

text \<open>What holds of the index and the build state between two calls of the build callback.\<close>

definition build_inv :: "PgLayout \<Rightarrow> Relation \<times> CuckooBuildState \<Rightarrow> bool" where
  "build_inv L acc =
     (nStart (metaPage (fst acc)) = 0 \<and> nEnd (metaPage (fst acc)) = 0
      \<and> length (notFullPage (metaPage (fst acc))) = CuckooMetaBlockN L
      \<and> pages_ok L (fst acc) \<and> length (dataPages (fst acc)) + 1 < MaxBlockNumber
      \<and> page_ok L (bs_data (snd acc))
      \<and> sizeOfCuckooTuple (bs_ckstate (snd acc)) = of_nat (sizeof_CuckooTuple L))"

text \<open>
  Two relations with the same descriptor and the same cached options: \<open>initCuckooState\<close>
  gives the same state for both.
\<close>

definition same_descriptor :: "Relation \<Rightarrow> Relation \<Rightarrow> bool" where
  "same_descriptor a b =
     (natts a = natts b \<and> hashprocs a = hashprocs b \<and> rd_indcollation a = rd_indcollation b
      \<and> rd_options a = rd_options b \<and> rd_amcache a = rd_amcache b)"

text \<open>
  During a build: the tuple \<open>t\<close> is stored in the index or is at an offset in use of the
  cached page, and the cached page is in use and holds \<open>bs_count\<close> tuples.
\<close>

definition build_holds :: "Relation \<times> CuckooBuildState \<Rightarrow> CuckooTuple \<Rightarrow> bool" where
  "build_holds acc t =
     (tuple_stored (fst acc) t
      \<or> t \<in> set (take (unat (maxoff (bs_data (snd acc)))) (items (bs_data (snd acc)))))"

definition cache_inv :: "CuckooBuildState \<Rightarrow> bool" where
  "cache_inv bs = (live_page (bs_data bs) \<and> bs_count bs = int (unat (maxoff (bs_data bs))))"

text \<open>
  The row with locator \<open>tid\<close> and the given column values has been added to the index, by
  the build or by \<open>ckinsert\<close>, and no bulk delete since has been told that \<open>tid\<close> is dead.
\<close>

inductive row_indexed ::
  "PgLayout \<Rightarrow> ItemPointerData \<Rightarrow> Datum list \<Rightarrow> bool list \<Rightarrow> Relation \<Rightarrow> bool"
  for L :: PgLayout and tid :: ItemPointerData and vals :: "Datum list" and isnull :: "bool list" where
  built_with:
    "ckbuild L nblocks index rows = Inr (res, index') \<Longrightarrow> (tid, vals, isnull) \<in> set rows \<Longrightarrow>
     row_indexed L tid vals isnull index'"
| added:
    "reachable L index \<Longrightarrow> ckinsert L index vals isnull tid = Inr index' \<Longrightarrow>
     row_indexed L tid vals isnull index'"
| other_insert:
    "row_indexed L tid vals isnull index \<Longrightarrow> ckinsert L index vals' isnull' tid' = Inr index' \<Longrightarrow>
     row_indexed L tid vals isnull index'"
| survived:
    "row_indexed L tid vals isnull index \<Longrightarrow>
     ckbulkdelete L index stats callback = Inr (stats', index') \<Longrightarrow> \<not> callback tid \<Longrightarrow>
     row_indexed L tid vals isnull index'"

text \<open>
  An index of two data pages holding one tuple each, with an empty ring buffer, and the
  same index with both pages named by the ring buffer, as a bulk delete that finds no
  dead tuple leaves it.
\<close>

definition demo_two :: Relation where
  "demo_two =
     demo_built\<lparr>rd_amcache := Some makeDefaultCuckooOptions,
                dataPages := [demo_page_n (Suc 0), demo_page_n (Suc 0)]\<rparr>"

definition demo_ring2 :: Relation where
  "demo_ring2 =
     demo_two\<lparr>metaPage := (metaPage demo_two)
                 \<lparr>notFullPage := [1, 2] @ drop 2 (notFullPage (metaPage demo_two)),
                  nStart := 0, nEnd := 2\<rparr>\<rparr>"

section \<open>Properties\<close>

text \<open>
  The two loops whose recursion is not structural, and the page of the example that is
  filled tuple by tuple, are unfolded one step at a time, by hand.
\<close>

declare compact_loop.simps [simp del]
declare insert_walk.simps [simp del]
declare demo_page_n.simps [simp del]

subsection \<open>Arithmetic of the page layout\<close>

lemma shl_u32_mask:
  "0 \<le> b \<Longrightarrow> b < 32 \<Longrightarrow> shl_u32 1 b = Inr m \<Longrightarrow> m - 1 = (mask (nat b) :: uint32)"
  by (auto simp: shl_u32_def mask_eq_exp_minus_1 push_bit_eq_mult)

lemma fold_all_null:
  "\<forall>i \<in> set xs. isnull ! i \<Longrightarrow> fold (mix_column st vals isnull) xs h = h"
  by (induction xs arbitrary: h) (simp_all add: mix_column_def)

lemma computeFingerprint_all_null:
  "\<forall>i < nat (nColumns st). isnull ! i \<Longrightarrow> computeFingerprint st vals isnull = 1"
  by (simp add: computeFingerprint_def fold_all_null)

lemma free_space_nat:
  assumes L: "layout_ok L" and st: "sizeOfCuckooTuple st = of_nat (sizeof_CuckooTuple L)"
    and p: "unat (maxoff p) \<le> page_slots L"
  shows "unat (CuckooPageGetFreeSpace L st p) =
     BLCKSZ L - MAXALIGN L (SizeOfPageHeaderData L) - MAXALIGN L sizeof_CuckooPageOpaqueData
       - unat (maxoff p) * sizeof_CuckooTuple L"
proof -
  let ?B = "BLCKSZ L" and ?H = "MAXALIGN L (SizeOfPageHeaderData L)"
  let ?O = "MAXALIGN L sizeof_CuckooPageOpaqueData" and ?T = "sizeof_CuckooTuple L"
  let ?m = "unat (maxoff p)"
  have le: "?m * ?T \<le> ?B - ?H - ?O"
  proof -
    have "?m * ?T \<le> page_slots L * ?T" using p by simp
    also have "\<dots> \<le> ?B - ?H - ?O" by (simp add: page_slots_def)
    finally show ?thesis .
  qed
  have HO: "?H + ?O \<le> ?B" using L by (simp add: layout_ok_def)
  have uc: "(ucast (maxoff p) :: Size) = of_nat ?m" by simp
  have "CuckooPageGetFreeSpace L st p = (of_nat (?B - ?H - ?O - ?m * ?T) :: Size)"
    unfolding CuckooPageGetFreeSpace_def st uc using le HO
    by (simp add: of_nat_diff algebra_simps)
  moreover have "?B - ?H - ?O - ?m * ?T < 2 ^ 64"
  proof -
    have "?B \<le> 32768" using L by (simp add: layout_ok_def)
    then show ?thesis by simp
  qed
  ultimately show ?thesis by (simp add: unat_of_nat)
qed

lemma tuple_size_nat:
  assumes L: "layout_ok L" and st: "sizeOfCuckooTuple st = of_nat (sizeof_CuckooTuple L)"
  shows "unat (sizeOfCuckooTuple st) = sizeof_CuckooTuple L"
proof -
  have "sizeof_CuckooTuple L \<le> 32768" using L by (simp add: layout_ok_def)
  then have "sizeof_CuckooTuple L < 2 ^ 64" by simp
  then show ?thesis by (simp add: st unat_of_nat)
qed

lemma has_room_iff:
  assumes L: "layout_ok L" and st: "sizeOfCuckooTuple st = of_nat (sizeof_CuckooTuple L)"
    and p: "unat (maxoff p) \<le> page_slots L"
  shows "(CuckooPageGetFreeSpace L st p < sizeOfCuckooTuple st) \<longleftrightarrow> unat (maxoff p) = page_slots L"
proof -
  let ?U = "BLCKSZ L - MAXALIGN L (SizeOfPageHeaderData L) - MAXALIGN L sizeof_CuckooPageOpaqueData"
  let ?T = "sizeof_CuckooTuple L" and ?m = "unat (maxoff p)"
  have T: "0 < ?T" using L by (simp add: layout_ok_def)
  have "(CuckooPageGetFreeSpace L st p < sizeOfCuckooTuple st) \<longleftrightarrow> ?U - ?m * ?T < ?T"
    by (simp add: word_less_nat_alt free_space_nat [OF L st p] tuple_size_nat [OF L st])
  also have "\<dots> \<longleftrightarrow> ?m = page_slots L"
  proof
    assume a: "?U - ?m * ?T < ?T"
    have "?m * ?T \<le> ?U"
    proof -
      have "?m * ?T \<le> page_slots L * ?T" using p by simp
      also have "\<dots> \<le> ?U" by (simp add: page_slots_def)
      finally show ?thesis .
    qed
    with a have "?U < (?m + 1) * ?T" by simp
    then have "?U div ?T < ?m + 1" using T by (simp add: div_less_iff_less_mult)
    then show "?m = page_slots L" using p by (simp add: page_slots_def)
  next
    assume e: "?m = page_slots L"
    have "?U - (?U div ?T) * ?T = ?U mod ?T" by (simp add: minus_div_mult_eq_mod)
    moreover have "?U mod ?T < ?T" using T by simp
    ultimately show "?U - ?m * ?T < ?T" using e by (simp add: page_slots_def)
  qed
  finally show ?thesis .
qed

lemma unat_maxoff_inc:
  assumes L: "layout_ok L" and lt: "unat (m :: uint16) < page_slots L"
  shows "unat (m + 1) = unat m + 1"
proof -
  have "page_slots L \<le> BLCKSZ L" 
    using L by (simp add: page_slots_def layout_ok_def)
       (meson diff_le_self div_le_dividend le_trans)
  then have "page_slots L \<le> 32768" using L by (simp add: layout_ok_def)
  with lt have "unat m + 1 < 2 ^ 16" by simp
  then show ?thesis by (simp add: unat_word_ariths)
qed


lemma layout_ok_default: "layout_ok pg_default"
  by (simp add: layout_ok_def pg_default_def MAXALIGN_def MAXALIGN_DOWN_def CuckooMetaBlockN_def
      sizeof_CuckooPageOpaqueData_def sizeof_CuckooOptions_def sizeof_BlockNumber_def)

lemma page_slots_default: "page_slots pg_default = 680"
  by (simp add: page_slots_def pg_default_def MAXALIGN_def sizeof_CuckooPageOpaqueData_def)

lemma demo_state_size: "sizeOfCuckooTuple demo_state = of_nat (sizeof_CuckooTuple pg_default)"
  by (simp add: demo_state_def pg_default_def)

lemma page_ok_init: "page_ok L (CuckooInitPage L fl)"
  by (simp add: page_ok_def CuckooInitPage_def)

subsection \<open>Appending a tuple to a page\<close>

text \<open>
  C4. On a data page of the index, \<open>CuckooPageAddItem\<close> returns false and leaves the page
  as it is when the free space is less than the size of one tuple; otherwise it returns
  true, the tuple is at offset \<open>maxoff + 1\<close>, the tuples at offsets \<open>1 .. maxoff\<close> are as
  before, and \<open>maxoff\<close> has grown by exactly one.
\<close>

theorem CuckooPageAddItem_spec:
  assumes L: "layout_ok L" and st: "sizeOfCuckooTuple st = of_nat (sizeof_CuckooTuple L)"
    and p: "page_ok L p"
  shows "(CuckooPageGetFreeSpace L st p < sizeOfCuckooTuple st \<longrightarrow>
            CuckooPageAddItem L st p t = (False, p)) \<and>
         (\<not> CuckooPageGetFreeSpace L st p < sizeOfCuckooTuple st \<longrightarrow>
            (\<exists>p'. CuckooPageAddItem L st p t = (True, p') \<and>
                   unat (maxoff p') = unat (maxoff p) + 1 \<and>
                   unat (maxoff p) < length (items p') \<and>
                   items p' ! unat (maxoff p) = t \<and>
                   length (items p') = length (items p) \<and>
                   (\<forall>i < unat (maxoff p). items p' ! i = items p ! i)))"
proof (intro conjI impI)
  assume "CuckooPageGetFreeSpace L st p < sizeOfCuckooTuple st"
  then show "CuckooPageAddItem L st p t = (False, p)"
    by (simp add: CuckooPageAddItem_def)
next
  assume room: "\<not> CuckooPageGetFreeSpace L st p < sizeOfCuckooTuple st"
  from p have le: "unat (maxoff p) \<le> page_slots L" and len: "length (items p) = page_slots L"
    by (simp_all add: page_ok_def)
  from room have lt: "unat (maxoff p) < page_slots L"
    using has_room_iff [OF L st le] le by simp
  show "\<exists>p'. CuckooPageAddItem L st p t = (True, p') \<and>
                   unat (maxoff p') = unat (maxoff p) + 1 \<and>
                   unat (maxoff p) < length (items p') \<and>
                   items p' ! unat (maxoff p) = t \<and>
                   length (items p') = length (items p) \<and>
                   (\<forall>i < unat (maxoff p). items p' ! i = items p ! i)"
    using room lt len unat_maxoff_inc [OF L lt]
    by (simp add: CuckooPageAddItem_def Let_def)
qed


theorem CuckooPageAddItem_spec_witness:
  "layout_ok pg_default \<and> sizeOfCuckooTuple demo_state = of_nat (sizeof_CuckooTuple pg_default)
   \<and> page_ok pg_default (CuckooInitPage pg_default 0)
   \<and> (\<exists>p'. CuckooPageAddItem pg_default demo_state (CuckooInitPage pg_default 0)
               \<lparr>heapPtr = demo_tid, fingerprint = 5\<rparr> = (True, p')
            \<and> unat (maxoff p') = 1 \<and> items p' ! 0 = \<lparr>heapPtr = demo_tid, fingerprint = 5\<rparr>)"
proof -
  have room: "\<not> CuckooPageGetFreeSpace pg_default demo_state (CuckooInitPage pg_default 0)
                 < sizeOfCuckooTuple demo_state"
    by (simp add: CuckooPageGetFreeSpace_def CuckooInitPage_def demo_state_def pg_default_def
        MAXALIGN_def sizeof_CuckooPageOpaqueData_def)
  have m0: "unat (maxoff (CuckooInitPage pg_default 0)) = 0"
    by (simp add: CuckooInitPage_def)
  show ?thesis
    using CuckooPageAddItem_spec [OF layout_ok_default demo_state_size page_ok_init,
        of 0 "\<lparr>heapPtr = demo_tid, fingerprint = 5\<rparr>"] room m0 layout_ok_default demo_state_size
      page_ok_init [of pg_default 0]
    by auto
qed

subsection \<open>The scan\<close>

lemma fold_scan_tuple:
  "m \<le> length (items page) \<Longrightarrow>
   fold (scan_tuple fp page) [Suc 0 ..< Suc m] acc =
     (fst acc @ map heapPtr (filter (\<lambda>t. fingerprint t = fp) (take m (items page))),
      snd acc + int (length (filter (\<lambda>t. fingerprint t = fp) (take m (items page)))))"
proof (induction m)
  case 0
  then show ?case by simp
next
  case (Suc m)
  then have lt: "m < length (items page)" by simp
  have "[Suc 0 ..< Suc (Suc m)] = [Suc 0 ..< Suc m] @ [Suc m]" by simp
  then show ?case using Suc lt
    by (simp add: take_Suc_conv_app_nth scan_tuple_def Let_def del: upt_Suc)
qed

lemma scan_page_matches:
  "unat (maxoff page) \<le> length (items page) \<Longrightarrow>
   scan_page fp page acc = (fst acc @ page_matches fp page, snd acc + int (length (page_matches fp page)))"
  by (simp add: scan_page_def page_matches_def fold_scan_tuple del: upt_Suc)

lemma fold_scan_page:
  "list_all (\<lambda>p. unat (maxoff p) \<le> length (items p)) ps \<Longrightarrow>
   fold (scan_page fp) ps acc =
     (fst acc @ concat (map (page_matches fp) ps),
      snd acc + int (length (concat (map (page_matches fp) ps))))"
proof (induction ps arbitrary: acc)
  case Nil
  then show ?case by simp
next
  case (Cons p ps)
  then show ?case by (simp add: scan_page_matches)
qed

lemma walk_matches:
  "slots_ok index \<Longrightarrow>
   fold (scan_page fp) (dataPages index) (tbm, 0) =
     (tbm @ index_matches fp index, int (length (index_matches fp index)))"
  by (simp add: slots_ok_def index_matches_def fold_scan_page)

lemma ckgetbitmap_fresh:
  assumes "\<not> fingerprintValid scan" and "slots_ok index"
    and "fill_keys (keyData scan) (replicate (nat (nColumns (so_state scan))) 0)
           (replicate (nat (nColumns (so_state scan))) True) = Filled vals isnull"
  shows "ckgetbitmap index scan tbm =
     Inr (int (length (index_matches (computeFingerprint (so_state scan) vals isnull) index)),
          scan\<lparr>so_fingerprint := computeFingerprint (so_state scan) vals isnull,
               fingerprintValid := True\<rparr>,
          tbm @ index_matches (computeFingerprint (so_state scan) vals isnull) index)"
  using assms by (simp add: ckgetbitmap_def Let_def walk_matches)

lemma ckgetbitmap_cached:
  assumes "fingerprintValid scan" and "slots_ok index"
  shows "ckgetbitmap index scan tbm =
     Inr (int (length (index_matches (so_fingerprint scan) index)), scan,
          tbm @ index_matches (so_fingerprint scan) index)"
  using assms by (simp add: ckgetbitmap_def Let_def walk_matches)

lemma fill_keys_null:
  "list_ex null_key ks \<Longrightarrow> keys_on_columns (length vals) ks \<Longrightarrow> length isnull = length vals \<Longrightarrow>
   fill_keys ks vals isnull = NullKey"
proof (induction ks arbitrary: vals isnull)
  case Nil
  then show ?case by simp
next
  case (Cons k ks)
  show ?case
  proof (cases "null_key k")
    case True
    then show ?thesis by (simp add: null_key_def)
  next
    case False
    with Cons.prems have ex: "list_ex null_key ks" by simp
    from Cons.prems have k: "1 \<le> sk_attno k" "sk_attno k \<le> int (length vals)"
      and ks: "keys_on_columns (length vals) ks"
      by (simp_all add: keys_on_columns_def)
    have "fill_keys ks (vals[nat (sk_attno k - 1) := sk_argument k])
            (isnull[nat (sk_attno k - 1) := False]) = NullKey"
      using Cons.IH [OF ex] ks Cons.prems(3) by simp
    then show ?thesis using False k by (simp add: null_key_def Let_def)
  qed
qed

lemma scan_inv_null:
  assumes "scan_inv scan" and "list_ex null_key (keyData scan)"
    and "keys_on_columns (nat (nColumns (so_state scan))) (keyData scan)"
  shows "\<not> fingerprintValid scan"
proof
  assume "fingerprintValid scan"
  moreover have "fill_keys (keyData scan) (replicate (nat (nColumns (so_state scan))) 0)
                (replicate (nat (nColumns (so_state scan))) True) = NullKey"
    using fill_keys_null [OF assms(2)] assms(3) by simp
  ultimately show False using assms(1) by (simp add: scan_inv_def)
qed

lemma scan_inv_begin: "ckbeginscan L r keys0 = Inr (scan, r') \<Longrightarrow> scan_inv scan"
  by (auto simp: ckbeginscan_def scan_inv_def split: sum.splits prod.splits)

lemma scan_inv_rescan: "scan_inv (ckrescan scan scankey)"
  by (simp add: ckrescan_def scan_inv_def Let_def split: option.splits)

lemma scan_inv_getbitmap:
  "scan_inv scan \<Longrightarrow> ckgetbitmap index scan tbm = Inr (n, scan', tbm') \<Longrightarrow> scan_inv scan'"
  by (auto simp: ckgetbitmap_def scan_inv_def Let_def split: key_fill.splits if_splits prod.splits)

lemma computeFingerprint_cong:
  assumes "\<forall>i < nat (nColumns st). isnull' ! i = isnull ! i \<and> (\<not> isnull ! i \<longrightarrow> vals' ! i = vals ! i)"
  shows "computeFingerprint st vals' isnull' = computeFingerprint st vals isnull"
proof -
  have "fold (mix_column st vals' isnull') [0 ..< nat (nColumns st)] 0
      = fold (mix_column st vals isnull) [0 ..< nat (nColumns st)] 0"
  proof (rule fold_cong)
    fix i assume "i \<in> set [0 ..< nat (nColumns st)]"
    then have "i < nat (nColumns st)" by simp
    with assms show "mix_column st vals' isnull' i = mix_column st vals isnull i"
      by (auto simp: mix_column_def fun_eq_iff)
  qed simp_all
  then show ?thesis by (simp add: computeFingerprint_def)
qed

lemma fill_keys_row:
  assumes "list_all (key_of_row vals isnull) ks"
    and "length v = length vals" and "length nl = length vals"
    and "\<forall>i < length vals. \<not> nl ! i \<longrightarrow> \<not> isnull ! i \<and> v ! i = vals ! i"
  shows "\<exists>v' nl'. fill_keys ks v nl = Filled v' nl' \<and> length v' = length vals \<and> length nl' = length vals
           \<and> (\<forall>i < length vals. \<not> nl' ! i \<longrightarrow> \<not> isnull ! i \<and> v' ! i = vals ! i)
           \<and> (\<forall>i < length vals. nl' ! i \<longrightarrow> nl ! i \<and> \<not> list_ex (\<lambda>k. sk_attno k = int i + 1) ks)"
  using assms
proof (induction ks arbitrary: v nl)
  case Nil
  then show ?case by simp
next
  case (Cons k ks)
  let ?a = "nat (sk_attno k - 1)"
  from Cons.prems(1) have kr: "key_of_row vals isnull k"
    and ks: "list_all (key_of_row vals isnull) ks"
    by simp_all
  from kr have k: "\<not> null_key k" "1 \<le> sk_attno k" "sk_attno k \<le> int (length vals)"
      "\<not> isnull ! ?a" "sk_argument k = vals ! ?a"
    by (simp_all add: key_of_row_def)
  have a: "?a < length vals" using k by linarith
  let ?v = "v[?a := sk_argument k]" and ?nl = "nl[?a := False]"
  have step: "fill_keys (k # ks) v nl = fill_keys ks ?v ?nl"
    using k a Cons.prems(2) by (simp add: null_key_def Let_def)
  have P: "\<forall>i < length vals. \<not> ?nl ! i \<longrightarrow> \<not> isnull ! i \<and> ?v ! i = vals ! i"
    using Cons.prems(2,3,4) k a by (auto simp: nth_list_update)
  obtain v' nl' where r: "fill_keys ks ?v ?nl = Filled v' nl'" "length v' = length vals"
      "length nl' = length vals"
      "\<forall>i < length vals. \<not> nl' ! i \<longrightarrow> \<not> isnull ! i \<and> v' ! i = vals ! i"
      "\<forall>i < length vals. nl' ! i \<longrightarrow> ?nl ! i \<and> \<not> list_ex (\<lambda>k. sk_attno k = int i + 1) ks"
    using Cons.IH [OF ks _ _ P] Cons.prems(2,3) by auto
  have "\<forall>i < length vals. nl' ! i \<longrightarrow> nl ! i \<and> \<not> list_ex (\<lambda>k. sk_attno k = int i + 1) (k # ks)"
  proof (intro allI impI)
    fix i assume i: "i < length vals" and n: "nl' ! i"
    with r(5) have nli: "?nl ! i" and nk: "\<not> list_ex (\<lambda>k. sk_attno k = int i + 1) ks" by auto
    from nli have ia: "i \<noteq> ?a" using a Cons.prems(3) by (auto simp: nth_list_update)
    then have "nl ! i" using nli by simp
    moreover have "sk_attno k \<noteq> int i + 1" using ia k by auto
    ultimately show "nl ! i \<and> \<not> list_ex (\<lambda>k. sk_attno k = int i + 1) (k # ks)"
      using nk by simp
  qed
  with r step show ?case by auto
qed

lemma keys_supply_fill:
  assumes sup: "keys_supply ks vals isnull"
  shows "\<exists>v' nl'. fill_keys ks (replicate (length vals) 0) (replicate (length vals) True) = Filled v' nl'
           \<and> (\<forall>i < length vals. nl' ! i = isnull ! i \<and> (\<not> isnull ! i \<longrightarrow> v' ! i = vals ! i))"
proof -
  from sup have all: "list_all (key_of_row vals isnull) ks"
    and cov: "\<forall>i < length vals. isnull ! i \<or> list_ex (\<lambda>k. sk_attno k = int i + 1) ks"
    by (simp_all add: keys_supply_def list_all_iff)
  obtain v' nl' where r: "fill_keys ks (replicate (length vals) 0) (replicate (length vals) True) = Filled v' nl'"
      "\<forall>i < length vals. \<not> nl' ! i \<longrightarrow> \<not> isnull ! i \<and> v' ! i = vals ! i"
      "\<forall>i < length vals. nl' ! i \<longrightarrow> \<not> list_ex (\<lambda>k. sk_attno k = int i + 1) ks"
    using fill_keys_row [OF all, of "replicate (length vals) 0" "replicate (length vals) True"]
    by auto
  have "\<forall>i < length vals. nl' ! i = isnull ! i \<and> (\<not> isnull ! i \<longrightarrow> v' ! i = vals ! i)"
    using r(2,3) cov by blast
  with r(1) show ?thesis by blast
qed

lemma stored_in_matches:
  assumes "tuple_stored index t"
  shows "heapPtr t \<in> set (index_matches (fingerprint t) index)"
proof -
  from assms obtain p where p: "p \<in> set (dataPages index)" "\<not> PageIsNew p"
      "\<not> CuckooPageIsDeleted p" "t \<in> set (take (unat (maxoff p)) (items p))"
    by (auto simp: tuple_stored_def list_ex_iff)
  then have "heapPtr t \<in> set (page_matches (fingerprint t) p)"
    by (auto simp: page_matches_def)
  with p(1) show ?thesis by (auto simp: index_matches_def)
qed

lemma demo_state_cols: "nat (nColumns demo_state) = 1"
  by (simp add: demo_state_def)

lemma demo_scan_inv: "scan_inv (demo_scan ks)"
  by (simp add: scan_inv_def demo_scan_def)

lemma demo_slots_ok: "slots_ok demo_index"
  by (simp add: slots_ok_def demo_index_def)

lemma demo_row_fingerprint: "fingerprint demo_row_tuple = 0x292"
  by (simp add: demo_row_tuple_def CuckooFormTuple_def computeFingerprint_def mix_column_def
      demo_state_def Let_def)

lemma demo_matches_1: "index_matches 1 demo_index = [demo_tid2]"
  by (simp add: index_matches_def page_matches_def demo_index_def PageIsNew_def
        CuckooPageIsDeleted_def CuckooInitPage_def pg_default_def MAXALIGN_def
        sizeof_CuckooPageOpaqueData_def CUCKOO_DELETED_def demo_row_fingerprint)

text \<open>
  A stored tuple formed by \<open>CuckooFormTuple\<close> from a row's column values is reported by a
  scan whose keys supply exactly the row's non-null column values, and the returned total
  counts every locator the scan added.
\<close>

lemma stored_tuple_found:
  assumes inv: "scan_inv scan" and slots: "slots_ok index"
    and len: "length vals = nat (nColumns (so_state scan))"
    and sup: "keys_supply (keyData scan) vals isnull"
    and stored: "tuple_stored index (CuckooFormTuple (so_state scan) tid vals isnull)"
  shows "\<exists>ntids scan' new. ckgetbitmap index scan tbm = Inr (ntids, scan', tbm @ new)
           \<and> tid \<in> set new \<and> ntids = int (length new)"
proof -
  let ?st = "so_state scan" and ?n = "nat (nColumns (so_state scan))"
  obtain v' nl' where f: "fill_keys (keyData scan) (replicate ?n 0) (replicate ?n True) = Filled v' nl'"
    and eq: "\<forall>i < ?n. nl' ! i = isnull ! i \<and> (\<not> isnull ! i \<longrightarrow> v' ! i = vals ! i)"
    using keys_supply_fill [OF sup] len by auto
  have fp: "computeFingerprint ?st v' nl' = computeFingerprint ?st vals isnull"
    using eq by (intro computeFingerprint_cong) simp
  let ?fp = "computeFingerprint ?st vals isnull"
  have mem: "tid \<in> set (index_matches ?fp index)"
    using stored_in_matches [OF stored] by (simp add: CuckooFormTuple_def)
  show ?thesis
  proof (cases "fingerprintValid scan")
    case True
    with inv f fp have "so_fingerprint scan = ?fp" by (simp add: scan_inv_def)
    then show ?thesis using ckgetbitmap_cached [OF True slots, of tbm] mem by auto
  next
    case False
    show ?thesis using ckgetbitmap_fresh [OF False slots f, of tbm] fp mem by auto
  qed
qed

text \<open>
  C3. Null semantics. A scan with at least one key flagged null, all keys being on indexed
  columns, returns 0 and adds nothing to the bitmap; the scan descriptor stays as it
  was, so every later call on the same keys answers the same.
\<close>

theorem ckgetbitmap_null_key:
  assumes "scan_inv scan" and "list_ex null_key (keyData scan)"
    and "keys_on_columns (nat (nColumns (so_state scan))) (keyData scan)"
  shows "ckgetbitmap index scan tbm = Inr (0, scan, tbm)"
proof -
  have "\<not> fingerprintValid scan" using scan_inv_null [OF assms] .
  moreover have "fill_keys (keyData scan) (replicate (nat (nColumns (so_state scan))) 0)
                (replicate (nat (nColumns (so_state scan))) True) = NullKey"
    using fill_keys_null [OF assms(2)] assms(3) by simp
  ultimately show ?thesis by (simp add: ckgetbitmap_def Let_def)
qed

theorem ckgetbitmap_null_key_witness:
  "scan_inv (demo_scan [\<lparr>sk_flags = 1, sk_attno = 1, sk_argument = 0\<rparr>])
   \<and> list_ex null_key [\<lparr>sk_flags = 1, sk_attno = 1, sk_argument = 0\<rparr>]
   \<and> keys_on_columns 1 [\<lparr>sk_flags = 1, sk_attno = 1, sk_argument = 0\<rparr>]
   \<and> ckgetbitmap demo_index (demo_scan [\<lparr>sk_flags = 1, sk_attno = 1, sk_argument = 0\<rparr>]) [demo_tid]
       = Inr (0, demo_scan [\<lparr>sk_flags = 1, sk_attno = 1, sk_argument = 0\<rparr>], [demo_tid])"
proof -
  let ?ks = "[\<lparr>sk_flags = 1, sk_attno = 1, sk_argument = 0\<rparr>]"
  have nk: "list_ex null_key (keyData (demo_scan ?ks))"
    by (simp add: null_key_def SK_ISNULL_def demo_scan_def)
  have kc: "keys_on_columns (nat (nColumns (so_state (demo_scan ?ks)))) (keyData (demo_scan ?ks))"
    by (simp add: keys_on_columns_def demo_scan_def demo_state_def)
  show ?thesis
    using ckgetbitmap_null_key [OF demo_scan_inv nk kc, of demo_index "[demo_tid]"]
      demo_scan_inv [of ?ks] nk kc
    by (simp add: demo_scan_def demo_state_def)
qed

text \<open>
  C10. When every indexed column is null \<open>computeFingerprint\<close> returns 1, whatever the
  values; and a scan without keys reports exactly the stored tuples whose fingerprint is
  1, in page and offset order, and returns their number.
\<close>

theorem keyless_scan:
  assumes inv: "scan_inv scan" and keys: "keyData scan = []" and slots: "slots_ok index"
  shows "((\<forall>i < nat (nColumns state). isnull ! i) \<longrightarrow> computeFingerprint state vals isnull = 1)
    \<and> (\<exists>scan'. ckgetbitmap index scan tbm =
           Inr (int (length (index_matches 1 index)), scan', tbm @ index_matches 1 index))"
proof
  show "(\<forall>i < nat (nColumns state). isnull ! i) \<longrightarrow> computeFingerprint state vals isnull = 1"
    by (simp add: computeFingerprint_all_null)
  let ?n = "nat (nColumns (so_state scan))"
  have one: "computeFingerprint (so_state scan) (replicate ?n 0) (replicate ?n True) = 1"
    by (simp add: computeFingerprint_all_null)
  have f: "fill_keys (keyData scan) (replicate ?n 0) (replicate ?n True)
             = Filled (replicate ?n 0) (replicate ?n True)"
    by (simp add: keys)
  show "\<exists>scan'. ckgetbitmap index scan tbm =
           Inr (int (length (index_matches 1 index)), scan', tbm @ index_matches 1 index)"
  proof (cases "fingerprintValid scan")
    case True
    with inv f one have "so_fingerprint scan = 1" by (simp add: scan_inv_def)
    then show ?thesis using ckgetbitmap_cached [OF True slots, of tbm] by simp
  next
    case False
    show ?thesis using ckgetbitmap_fresh [OF False slots f, of tbm] one by simp
  qed
qed

theorem keyless_scan_witness:
  "scan_inv (demo_scan []) \<and> keyData (demo_scan []) = [] \<and> slots_ok demo_index
   \<and> computeFingerprint demo_state [0] [True] = 1
   \<and> (\<exists>scan'. ckgetbitmap demo_index (demo_scan []) [] = Inr (1, scan', [demo_tid2]))"
proof -
  have k: "keyData (demo_scan []) = []" by (simp add: demo_scan_def)
  have n: "\<forall>i < nat (nColumns demo_state). [True] ! i" by (simp add: demo_state_def)
  show ?thesis
    using keyless_scan [OF demo_scan_inv k demo_slots_ok, of demo_state "[True]" "[0]" "[]"]
      demo_scan_inv [of "[]"] k demo_slots_ok n
    by (simp add: demo_matches_1)
qed

subsection \<open>The fingerprint and the tag mask\<close>

lemma initCuckooState_opts:
  assumes "initCuckooState L index = Inr (st, index')"
  shows "0 \<le> bitsPerTag (opts st) \<and> bitsPerTag (opts st) < 32
         \<and> tagMask st = mask (nat (bitsPerTag (opts st)))
         \<and> sizeOfCuckooTuple st = of_nat (sizeof_CuckooTuple L)
         \<and> metaPage index' = metaPage index \<and> dataPages index' = dataPages index
         \<and> fsm index' = fsm index
         \<and> (rd_amcache index = None \<longrightarrow> opts st = meta_opts (metaPage index))"
  using assms
  by (auto simp: initCuckooState_def shl_u32_def mask_eq_exp_minus_1 push_bit_eq_mult
      split: option.splits if_splits sum.splits)

lemma computeFingerprint_masked:
  assumes "initCuckooState L index = Inr (st, index')"
  shows "computeFingerprint st vals isnull =
           (let fp = take_bit (nat (bitsPerTag (opts st)))
                        (fold (mix_column st vals isnull) [0 ..< nat (nColumns st)] 0)
            in if fp = 0 then 1 else fp)
         \<and> computeFingerprint st vals isnull \<noteq> 0"
  using initCuckooState_opts [OF assms]
  by (simp add: computeFingerprint_def Let_def take_bit_eq_mask)

text \<open>
  C2. The lemma above gives the claim for every state \<open>initCuckooState\<close> returns: the
  fingerprint is the accumulator of the column rounds masked to the low \<open>bitsPerTag\<close>
  bits, with 0 replaced by 1, and is never 0. Such a state exists only for
  \<open>bitsPerTag < 32\<close>. The options accept \<open>bitsPerTag = 32\<close>, and there the mask
  \<open>(1U << 32) - 1\<close> shifts a 32-bit operand by its width: on the index created with
  \<open>bits_per_tag = 32\<close> the state initialisation has no defined result.
\<close>

theorem initCuckooState_bitsPerTag_32:
  "bitsPerTag (meta_opts (metaPage demo_rel32)) = 32
   \<and> initCuckooState pg_default demo_rel32 = Inl UndefinedShift"
  by (simp add: demo_rel32_def CuckooInitMetapage_def CuckooFillMetapage_def demo_rel_def
      demo_opts32_def initCuckooState_def CuckooPageIsMeta_flags_def CUCKOO_META_def
      CUCKOO_MAGIC_NUMBER_def shl_u32_def)

subsection \<open>The first tuple of an empty page\<close>

lemma insert_walk_no_reject: "insert_walk L st index itup n \<noteq> Inl EmptyPageRejected"
proof (induction L st index itup n rule: insert_walk.induct)
  case (1 L state index itup nStart')
  show ?case
    apply (subst insert_walk.simps)
    using 1
    by (auto simp: Let_def read_data_page_def split: sum.splits prod.splits bool.splits if_splits)
qed

lemma CuckooNewBuffer_fsm_no_reject: "CuckooNewBuffer_fsm index bs \<noteq> Inl EmptyPageRejected"
  by (induction bs) (auto simp: read_data_page_def split: sum.splits)

lemma CuckooNewBuffer_no_reject: "CuckooNewBuffer L index \<noteq> Inl EmptyPageRejected"
  using CuckooNewBuffer_fsm_no_reject [of index "fsm index"]
  by (auto simp: CuckooNewBuffer_def split: sum.splits prod.splits option.splits)

lemma page_slots_pos: "layout_ok L \<Longrightarrow> 0 < page_slots L"
proof -
  assume L: "layout_ok L"
  let ?T = "sizeof_CuckooTuple L"
  let ?U = "BLCKSZ L - MAXALIGN L (SizeOfPageHeaderData L) - MAXALIGN L sizeof_CuckooPageOpaqueData"
  from L have "0 < ?T" by (simp add: layout_ok_def)
  moreover from L have "?T \<le> ?U" unfolding layout_ok_def by linarith
  ultimately
  show ?thesis by (simp add: page_slots_def div_greater_zero_iff)
qed

lemma init_page_accepts:
  assumes L: "layout_ok L" and st: "sizeOfCuckooTuple st = of_nat (sizeof_CuckooTuple L)"
  shows "fst (CuckooPageAddItem L st (CuckooInitPage L fl) t)"
proof -
  have m: "unat (maxoff (CuckooInitPage L fl)) = 0" by (simp add: CuckooInitPage_def)
  have "0 < page_slots L" using page_slots_pos [OF L] .
  then have "\<not> CuckooPageGetFreeSpace L st (CuckooInitPage L fl) < sizeOfCuckooTuple st"
    using has_room_iff [OF L st, of "CuckooInitPage L fl"] m by simp
  then show ?thesis by (simp add: CuckooPageAddItem_def Let_def)
qed

lemma insert_new_page_no_reject:
  assumes L: "layout_ok L" and st: "sizeOfCuckooTuple st = of_nat (sizeof_CuckooTuple L)"
  shows "insert_new_page L st index itup \<noteq> Inl EmptyPageRejected"
proof (cases "CuckooNewBuffer L index")
  case (Inl e)
  then show ?thesis using CuckooNewBuffer_no_reject [of L index]
    by (simp add: insert_new_page_def)
next
  case (Inr r)
  then show ?thesis using init_page_accepts [OF L st, of 0 itup]
    by (auto simp: insert_new_page_def split: prod.splits bool.splits)
qed

lemma insert_slow_no_reject:
  assumes L: "layout_ok L" and st: "sizeOfCuckooTuple st = of_nat (sizeof_CuckooTuple L)"
  shows "insert_slow L st index itup blkno \<noteq> Inl EmptyPageRejected"
  unfolding insert_slow_def Let_def
  using insert_walk_no_reject insert_new_page_no_reject [OF L st]
  by (auto split: sum.splits option.splits)

subsection \<open>The fast path of the insert\<close>

text \<open>
  C7. When the ring buffer is not empty and the page of its first entry takes the tuple,
  \<open>ckinsert\<close> succeeds and the metapage (\<open>nStart\<close>, \<open>nEnd\<close>, the \<open>notFullPage\<close> array and
  the options) is the one it found.
\<close>

theorem fast_path_keeps_metapage:
  assumes init: "initCuckooState L index0 = Inr (st, index)"
    and ne: "nStart (metaPage index0) < nEnd (metaPage index0)"
    and len: "unat (nStart (metaPage index0)) < length (notFullPage (metaPage index0))"
    and rd: "read_data_page index0 (notFullPage (metaPage index0) ! unat (nStart (metaPage index0)))
               = Inr page"
    and ok: "fst (try_append L st page (CuckooFormTuple st tid vals isnull))"
  shows "\<exists>index'. ckinsert L index0 vals isnull tid = Inr index'
            \<and> metaPage index' = metaPage index0"
proof -
  have m: "metaPage index = metaPage index0" and d: "dataPages index = dataPages index0"
    using initCuckooState_opts [OF init] by simp_all
  have rd': "read_data_page index (notFullPage (metaPage index0) ! unat (nStart (metaPage index0)))
               = Inr page"
    using rd unfolding read_data_page_def d .
  obtain page' where t: "try_append L st page (CuckooFormTuple st tid vals isnull) = (True, page')"
    using ok by (cases "try_append L st page (CuckooFormTuple st tid vals isnull)") auto
  show ?thesis
    using init m ne len rd' t
    by (simp add: ckinsert_def Let_def write_data_page_def)
qed

lemma CuckooMetaBlockN_default: "CuckooMetaBlockN pg_default = 2034"
  by (simp add: CuckooMetaBlockN_def pg_default_def MAXALIGN_def MAXALIGN_DOWN_def
      sizeof_CuckooPageOpaqueData_def sizeof_CuckooOptions_def sizeof_BlockNumber_def)

lemma demo_listed_meta:
  "nStart (metaPage demo_index_listed) = 0" "nEnd (metaPage demo_index_listed) = 1"
  "length (notFullPage (metaPage demo_index_listed)) = 2034"
  "notFullPage (metaPage demo_index_listed) ! 0 = 1"
  by (simp_all add: demo_index_listed_def demo_index_def CuckooFillMetapage_def
      CuckooMetaBlockN_default)

lemma demo_listed_init:
  "initCuckooState pg_default demo_index_listed
     = Inr (demo_state, demo_index_listed\<lparr>rd_amcache := Some makeDefaultCuckooOptions\<rparr>)"
  by (simp add: initCuckooState_def demo_index_listed_def demo_index_def demo_rel_def
      CuckooFillMetapage_def CuckooPageIsMeta_flags_def CUCKOO_META_def shl_u32_def
      makeDefaultCuckooOptions_def demo_state_def pg_default_def)

lemma demo_listed_read:
  "read_data_page demo_index_listed 1 = Inr (hd (dataPages demo_index))"
  by (simp add: read_data_page_def demo_index_listed_def demo_index_def)

lemma demo_listed_append:
  "fst (try_append pg_default demo_state (hd (dataPages demo_index)) t)"
  by (simp add: try_append_def demo_index_def PageIsNew_def CuckooPageIsDeleted_def
      CuckooInitPage_def CuckooPageAddItem_def CuckooPageGetFreeSpace_def demo_state_def
      pg_default_def MAXALIGN_def sizeof_CuckooPageOpaqueData_def CUCKOO_DELETED_def Let_def)

theorem fast_path_keeps_metapage_witness:
  "initCuckooState pg_default demo_index_listed
     = Inr (demo_state, demo_index_listed\<lparr>rd_amcache := Some makeDefaultCuckooOptions\<rparr>)
   \<and> nStart (metaPage demo_index_listed) < nEnd (metaPage demo_index_listed)
   \<and> read_data_page demo_index_listed 1 = Inr (hd (dataPages demo_index))
   \<and> fst (try_append pg_default demo_state (hd (dataPages demo_index))
            (CuckooFormTuple demo_state demo_tid [42] [False]))
   \<and> (\<exists>index'. ckinsert pg_default demo_index_listed [42] [False] demo_tid = Inr index'
          \<and> metaPage index' = metaPage demo_index_listed)"
proof -
  have ne: "nStart (metaPage demo_index_listed) < nEnd (metaPage demo_index_listed)"
    by (simp add: demo_listed_meta)
  have len: "unat (nStart (metaPage demo_index_listed))
               < length (notFullPage (metaPage demo_index_listed))"
    by (simp add: demo_listed_meta)
  have rd: "read_data_page demo_index_listed
              (notFullPage (metaPage demo_index_listed) ! unat (nStart (metaPage demo_index_listed)))
            = Inr (hd (dataPages demo_index))"
    by (simp add: demo_listed_meta demo_listed_read)
  show ?thesis
    using fast_path_keeps_metapage [where tid = demo_tid and vals = "[42]" and isnull = "[False]",
        OF demo_listed_init ne len rd demo_listed_append]
      demo_listed_init ne demo_listed_read demo_listed_append
    by simp
qed

subsection \<open>The false-positive rate of the cost model\<close>

lemma unat_shl_one:
  assumes "n < 64"
  shows "unat (push_bit n (1 :: 64 word)) = 2 ^ n"
proof -
  have "push_bit n (1 :: 64 word) = of_nat (2 ^ n)" by (simp add: push_bit_eq_mult)
  moreover have "(2::nat) ^ n < 2 ^ 64"
    using power_strict_increasing [of n 64 "2::nat"] assms by simp
  ultimately show ?thesis by (simp add: unat_of_nat del: of_nat_power)
qed

lemma clamp_steps:
  "(let fpr = (q::real);
        fpr1 = (if fpr > 1.0 then 1.0 else fpr);
        fpr2 = (if fpr1 < 0.0001 then 0.0001 else fpr1)
    in fpr2) = max 0.0001 (min 1.0 q)"
  by (simp add: Let_def max_def min_def)

text \<open>
  C9. For \<open>bitsPerTag\<close> in 4 .. 32 and \<open>tagsPerBucket\<close> in 2 .. 8 the rate is
  \<open>(2 * tagsPerBucket) / 2 ^ bitsPerTag\<close> clamped to the interval from 0.0001 to 1.
\<close>

theorem false_positive_rate_clamped:
  assumes "4 \<le> b" and "b \<le> 32" and "2 \<le> t" and "t \<le> 8"
  shows "calculateFalsePositiveRate b t
           = Inr (max 0.0001 (min 1.0 ((2 * real_of_int t) / 2 ^ nat b)))"
proof -
  have s: "shl_u64 1 b = Inr (push_bit (nat b) 1)" using assms by (simp add: shl_u64_def)
  have "nat b < 64" using assms by simp
  then have u: "real (unat (push_bit (nat b) (1 :: 64 word))) = 2 ^ nat b"
    by (simp only: unat_shl_one of_nat_power of_nat_numeral)
  have "calculateFalsePositiveRate b t =
      Inr (let fpr = (2.0 * real_of_int t) / 2 ^ nat b;
               fpr1 = (if fpr > 1.0 then 1.0 else fpr);
               fpr2 = (if fpr1 < 0.0001 then 0.0001 else fpr1)
           in fpr2)"
    by (simp only: calculateFalsePositiveRate_def s sum.case Let_def u)
  also have "\<dots> = Inr (max 0.0001 (min 1.0 ((2.0 * real_of_int t) / 2 ^ nat b)))"
    by (simp only: clamp_steps)
  finally show ?thesis by simp
qed

theorem false_positive_rate_clamped_witness:
  "(4::int) \<le> 12 \<and> (12::int) \<le> 32 \<and> (2::int) \<le> 4 \<and> (4::int) \<le> 8
   \<and> calculateFalsePositiveRate 12 4 = Inr (8 / 4096)"
  using false_positive_rate_clamped [of 12 4] by simp

subsection \<open>Bulk delete\<close>

lemma seg_step:
  assumes "i < e" and "e \<le> length xs"
  shows "take (e - i) (drop i xs) = xs ! i # take (e - Suc i) (drop (Suc i) xs)"
proof -
  have "i < length xs" using assms by simp
  then have "drop i xs = xs ! i # drop (Suc i) xs" by (simp add: Cons_nth_drop_Suc)
  moreover have "e - i = Suc (e - Suc i)" using assms by simp
  ultimately show ?thesis by simp
qed

lemma compact_loop_spec:
  assumes "j \<le> i" and "i \<le> e" and "e \<le> length (items page)"
  shows "case compact_loop cb e page i j r of
           (p', i', j', r') \<Rightarrow>
             i' = e
             \<and> j' = j + length (filter (\<lambda>t. \<not> cb (heapPtr t)) (take (e - i) (drop i (items page))))
             \<and> take j' (items p') =
                 take j (items page) @ filter (\<lambda>t. \<not> cb (heapPtr t)) (take (e - i) (drop i (items page)))
             \<and> r' = r + int (length (filter (\<lambda>t. cb (heapPtr t)) (take (e - i) (drop i (items page)))))
             \<and> maxoff p' = maxoff page
                   - of_nat (length (filter (\<lambda>t. cb (heapPtr t)) (take (e - i) (drop i (items page)))))
             \<and> length (items p') = length (items page)
             \<and> same_frame p' page
             \<and> (i = j \<and> filter (\<lambda>t. cb (heapPtr t)) (take (e - i) (drop i (items page))) = []
                   \<longrightarrow> p' = page)"
  using assms
proof (induction cb e page i j r rule: compact_loop.induct)
  case (1 cb e page i j r)
  show ?case
  proof (cases "i < e")
    case False
    with "1.prems" have "i = e" by simp
    then show ?thesis by (subst compact_loop.simps) (simp add: same_frame_def)
  next
    case lt: True
    let ?xs = "items page"
    have seg: "take (e - i) (drop i ?xs) = ?xs ! i # take (e - Suc i) (drop (Suc i) ?xs)"
      using seg_step [OF lt "1.prems"(3)] .
    have jl: "j < length ?xs" using "1.prems" lt by simp
    show ?thesis
    proof (cases "cb (heapPtr (?xs ! i))")
      case dead: True
      let ?p1 = "page\<lparr>maxoff := maxoff page - 1\<rparr>"
      have un: "compact_loop cb e page i j r = compact_loop cb e ?p1 (i + 1) j (r + 1)"
        by (subst compact_loop.simps) (simp add: lt dead)
      have ih: "case compact_loop cb e ?p1 (i + 1) j (r + 1) of
           (p', i', j', r') \<Rightarrow>
             i' = e
             \<and> j' = j + length (filter (\<lambda>t. \<not> cb (heapPtr t)) (take (e - (i + 1)) (drop (i + 1) (items ?p1))))
             \<and> take j' (items p') =
                 take j (items ?p1) @ filter (\<lambda>t. \<not> cb (heapPtr t)) (take (e - (i + 1)) (drop (i + 1) (items ?p1)))
             \<and> r' = (r + 1) + int (length (filter (\<lambda>t. cb (heapPtr t)) (take (e - (i + 1)) (drop (i + 1) (items ?p1)))))
             \<and> maxoff p' = maxoff ?p1
                   - of_nat (length (filter (\<lambda>t. cb (heapPtr t)) (take (e - (i + 1)) (drop (i + 1) (items ?p1)))))
             \<and> length (items p') = length (items ?p1)
             \<and> same_frame p' ?p1
             \<and> (i + 1 = j \<and> filter (\<lambda>t. cb (heapPtr t)) (take (e - (i + 1)) (drop (i + 1) (items ?p1))) = []
                   \<longrightarrow> p' = ?p1)"
        using "1.IH"(1) [OF lt dead] "1.prems" lt by simp
      obtain p' i' j' r' where res: "compact_loop cb e ?p1 (i + 1) j (r + 1) = (p', i', j', r')"
        by (cases "compact_loop cb e ?p1 (i + 1) j (r + 1)") auto
      have other: "same_frame p' page"
      proof -
        from ih res have "same_frame p' ?p1" by simp
        then show ?thesis by (simp add: same_frame_def split: if_splits)
      qed
      from ih res have
        a: "i' = e"
        and b: "j' = j + length (filter (\<lambda>t. \<not> cb (heapPtr t)) (take (e - Suc i) (drop (Suc i) ?xs)))"
        and c: "take j' (items p') = take j ?xs @ filter (\<lambda>t. \<not> cb (heapPtr t)) (take (e - Suc i) (drop (Suc i) ?xs))"
        and d: "r' = (r + 1) + int (length (filter (\<lambda>t. cb (heapPtr t)) (take (e - Suc i) (drop (Suc i) ?xs))))"
        and f: "maxoff p' = maxoff page - 1 - of_nat (length (filter (\<lambda>t. cb (heapPtr t)) (take (e - Suc i) (drop (Suc i) ?xs))))"
        and g: "length (items p') = length ?xs"
        by auto
      have f': "maxoff p' = maxoff page - of_nat (Suc (length (filter (\<lambda>t. cb (heapPtr t)) (take (e - Suc i) (drop (Suc i) ?xs)))))"
        using f by (simp add: diff_diff_eq)
      show ?thesis
        unfolding un res seg using a b c d f' g other dead by simp
    next
      case keep: False
      let ?p1 = "if j \<noteq> i then page\<lparr>items := ?xs[j := ?xs ! i]\<rparr> else page"
      have un: "compact_loop cb e page i j r = compact_loop cb e ?p1 (i + 1) (j + 1) r"
        by (subst compact_loop.simps) (simp add: lt keep)
      have d1: "drop (Suc i) (items ?p1) = drop (Suc i) ?xs"
        using "1.prems" by simp
      have t1: "take (Suc j) (items ?p1) = take j ?xs @ [?xs ! i]"
        using jl by (auto simp: take_Suc_conv_app_nth)
      have l1: "length (items ?p1) = length ?xs" by simp
      have m1: "maxoff ?p1 = maxoff page" by simp
      have ih: "case compact_loop cb e ?p1 (i + 1) (j + 1) r of
           (p', i', j', r') \<Rightarrow>
             i' = e
             \<and> j' = (j + 1) + length (filter (\<lambda>t. \<not> cb (heapPtr t)) (take (e - (i + 1)) (drop (i + 1) (items ?p1))))
             \<and> take j' (items p') =
                 take (j + 1) (items ?p1) @ filter (\<lambda>t. \<not> cb (heapPtr t)) (take (e - (i + 1)) (drop (i + 1) (items ?p1)))
             \<and> r' = r + int (length (filter (\<lambda>t. cb (heapPtr t)) (take (e - (i + 1)) (drop (i + 1) (items ?p1)))))
             \<and> maxoff p' = maxoff ?p1
                   - of_nat (length (filter (\<lambda>t. cb (heapPtr t)) (take (e - (i + 1)) (drop (i + 1) (items ?p1)))))
             \<and> length (items p') = length (items ?p1)
             \<and> same_frame p' ?p1
             \<and> (i + 1 = j + 1 \<and> filter (\<lambda>t. cb (heapPtr t)) (take (e - (i + 1)) (drop (i + 1) (items ?p1))) = []
                   \<longrightarrow> p' = ?p1)"
        using "1.IH"(2) [OF lt keep] "1.prems" lt l1 by simp
      obtain p' i' j' r' where res: "compact_loop cb e ?p1 (i + 1) (j + 1) r = (p', i', j', r')"
        by (cases "compact_loop cb e ?p1 (i + 1) (j + 1) r") auto
      have other: "same_frame p' page"
      proof -
        from ih res have "same_frame p' ?p1" by simp
        then show ?thesis by (simp add: same_frame_def split: if_splits)
      qed
      have same: "i = j \<Longrightarrow> ?p1 = page" by simp
      from ih res have
        a: "i' = e"
        and b: "j' = (j + 1) + length (filter (\<lambda>t. \<not> cb (heapPtr t)) (take (e - Suc i) (drop (Suc i) ?xs)))"
        and c: "take j' (items p') = (take j ?xs @ [?xs ! i]) @ filter (\<lambda>t. \<not> cb (heapPtr t)) (take (e - Suc i) (drop (Suc i) ?xs))"
        and d: "r' = r + int (length (filter (\<lambda>t. cb (heapPtr t)) (take (e - Suc i) (drop (Suc i) ?xs))))"
        and f: "maxoff p' = maxoff page - of_nat (length (filter (\<lambda>t. cb (heapPtr t)) (take (e - Suc i) (drop (Suc i) ?xs))))"
        and g: "length (items p') = length ?xs"
        and h: "i = j \<and> filter (\<lambda>t. cb (heapPtr t)) (take (e - Suc i) (drop (Suc i) ?xs)) = [] \<longrightarrow> p' = ?p1"
        using d1 t1 l1 m1 by auto
      show ?thesis
        unfolding un res seg using a b c d f g h other keep same by simp
    qed
  qed
qed

lemma unat_maxoff_minus:
  assumes "d \<le> unat (m :: uint16)"
  shows "unat (m - of_nat d) = unat m - d"
proof -
  have lt: "unat m < 2 ^ 16" using unsigned_less [of m] by simp
  have "m - of_nat d = (of_nat (unat m - d) :: uint16)"
    using assms by (simp add: of_nat_diff)
  moreover have "unat m - d < 2 ^ 16" using lt by simp
  ultimately show ?thesis by (simp add: unat_of_nat)
qed

lemma kept_dead_sum:
  "length (kept_tuples cb p) + dead_count cb p = min (length (items p)) (unat (maxoff p))"
  using sum_length_filter_compl [of "\<lambda>t. cb (heapPtr t)" "take (unat (maxoff p)) (items p)"]
  by (simp add: kept_tuples_def dead_count_def)

text \<open>The tuple loop on a whole page.\<close>

lemma compact_page:
  assumes sl: "unat (maxoff p) \<le> length (items p)"
  obtains p1 where
    "compact_loop cb (unat (maxoff p)) p 0 0 r
       = (p1, unat (maxoff p), length (kept_tuples cb p), r + int (dead_count cb p))"
    and "take (length (kept_tuples cb p)) (items p1) = kept_tuples cb p"
    and "unat (maxoff p1) = length (kept_tuples cb p)"
    and "length (items p1) = length (items p)"
    and "same_frame p1 p"
    and "dead_count cb p = 0 \<Longrightarrow> p1 = p"
proof -
  let ?e = "unat (maxoff p)"
  obtain p1 i' j' r' where res: "compact_loop cb ?e p 0 0 r = (p1, i', j', r')"
    by (cases "compact_loop cb ?e p 0 0 r") auto
  have spec: "i' = ?e
      \<and> j' = 0 + length (filter (\<lambda>t. \<not> cb (heapPtr t)) (take (?e - 0) (drop 0 (items p))))
      \<and> take j' (items p1) =
           take 0 (items p) @ filter (\<lambda>t. \<not> cb (heapPtr t)) (take (?e - 0) (drop 0 (items p)))
      \<and> r' = r + int (length (filter (\<lambda>t. cb (heapPtr t)) (take (?e - 0) (drop 0 (items p)))))
      \<and> maxoff p1 = maxoff p
            - of_nat (length (filter (\<lambda>t. cb (heapPtr t)) (take (?e - 0) (drop 0 (items p)))))
      \<and> length (items p1) = length (items p)
      \<and> same_frame p1 p
      \<and> (0 = (0::nat) \<and> filter (\<lambda>t. cb (heapPtr t)) (take (?e - 0) (drop 0 (items p))) = []
            \<longrightarrow> p1 = p)"
    using compact_loop_spec [of 0 0 ?e p cb r, OF le0 le0 sl] unfolding res prod.case .
  have a: "i' = ?e" and b: "j' = length (kept_tuples cb p)"
    and d: "r' = r + int (dead_count cb p)"
    and m: "maxoff p1 = maxoff p - of_nat (dead_count cb p)"
    and l: "length (items p1) = length (items p)"
    and f: "same_frame p1 p"
    and z: "dead_count cb p = 0 \<longrightarrow> p1 = p"
    using spec by (simp_all add: kept_tuples_def dead_count_def)
  have c: "take (length (kept_tuples cb p)) (items p1) = kept_tuples cb p"
    using spec by (elim conjE) (simp add: kept_tuples_def)
  have sum: "length (kept_tuples cb p) + dead_count cb p = ?e"
    using kept_dead_sum [of cb p] sl by simp
  then have "dead_count cb p \<le> ?e" by simp
  then have um: "unat (maxoff p1) = length (kept_tuples cb p)"
    using unat_maxoff_minus [of "dead_count cb p" "maxoff p"] m sum by simp
  show ?thesis
    using that [of p1] res a b c d um l f z by simp
qed

lemma free_space_maxoff:
  "maxoff p = maxoff q \<Longrightarrow> CuckooPageGetFreeSpace L st p = CuckooPageGetFreeSpace L st q"
  by (simp add: CuckooPageGetFreeSpace_def)

lemma bulkdelete_block_skip:
  assumes "\<not> live_page (pages ! i)"
  shows "bulkdelete_block L st cb i (pages, nfp, r) = (pages, nfp, r)"
  using assms by (simp add: bulkdelete_block_def live_page_def Let_def)

lemma bulkdelete_block_live:
  assumes i: "i < length pages" and live: "live_page (pages ! i)"
    and sl: "unat (maxoff (pages ! i)) \<le> length (items (pages ! i))"
  obtains pages' nfp' where
    "bulkdelete_block L st cb i (pages, nfp, r) = (pages', nfp', r + int (dead_count cb (pages ! i)))"
    and "length pages' = length pages"
    and "\<forall>j. j \<noteq> i \<longrightarrow> pages' ! j = pages ! j"
    and "vacuumed cb (pages ! i) (pages' ! i)"
    and "unat (maxoff (pages' ! i)) \<le> length (items (pages' ! i))"
    and "kept_frame cb (pages ! i) (pages' ! i)"
    and "nfp' = nfp \<or>
         (nfp' = nfp @ [of_nat (i + 1)] \<and> length nfp < CuckooMetaBlockN L
          \<and> maxoff (pages' ! i) \<noteq> 0 \<and> has_room L st (pages' ! i))"
proof -
  let ?p = "pages ! i"
  obtain p1 where
    loop: "compact_loop cb (unat (maxoff ?p)) ?p 0 0 r
       = (p1, unat (maxoff ?p), length (kept_tuples cb ?p), r + int (dead_count cb ?p))"
    and tk: "take (length (kept_tuples cb ?p)) (items p1) = kept_tuples cb ?p"
    and um: "unat (maxoff p1) = length (kept_tuples cb ?p)"
    and ln: "length (items p1) = length (items ?p)"
    and fr: "same_frame p1 ?p"
    and z: "dead_count cb ?p = 0 \<Longrightarrow> p1 = ?p"
    using compact_page [OF sl, of cb r] by blast
  have sum: "length (kept_tuples cb ?p) + dead_count cb ?p = unat (maxoff ?p)"
    using kept_dead_sum [of cb ?p] sl by simp
  let ?nfp1 = "if maxoff p1 \<noteq> 0 \<and> sizeOfCuckooTuple st \<le> CuckooPageGetFreeSpace L st p1
                  \<and> int (length nfp) < int (CuckooMetaBlockN L)
               then nfp @ [of_nat (i + 1)] else nfp"
  let ?p2 = "if maxoff p1 = 0 then CuckooPageSetDeleted p1 else p1"
  let ?p3 = "?p2\<lparr>pd_lower := of_nat (MAXALIGN L (SizeOfPageHeaderData L))
                  + ucast (of_nat (length (kept_tuples cb ?p)) * sizeOfCuckooTuple st)\<rparr>"
  have m3: "maxoff ?p3 = maxoff p1" and i3: "items ?p3 = items p1"
    by (simp_all add: CuckooPageSetDeleted_def)
  show ?thesis
  proof (cases "dead_count cb ?p = 0")
    case True
    then have same: "length (kept_tuples cb ?p) = unat (maxoff ?p)" using sum by simp
    have p1: "p1 = ?p" using z True by simp
    have blk: "bulkdelete_block L st cb i (pages, nfp, r) = (pages, ?nfp1, r + int (dead_count cb ?p))"
      using live loop same
      by (simp add: bulkdelete_block_def live_page_def Let_def)
    have vac: "vacuumed cb ?p ?p"
      using live True tk um unfolding p1 by (simp add: vacuumed_def)
    have nf: "?nfp1 = nfp \<or>
         (?nfp1 = nfp @ [of_nat (i + 1)] \<and> length nfp < CuckooMetaBlockN L
          \<and> maxoff ?p \<noteq> 0 \<and> has_room L st ?p)"
      using p1 by (simp add: has_room_def)
    have kf: "kept_frame cb ?p ?p" by (simp add: kept_frame_def)
    show ?thesis using that [of pages ?nfp1] blk vac nf sl kf by simp
  next
    case False
    then have ne: "length (kept_tuples cb ?p) \<noteq> unat (maxoff ?p)" using sum by simp
    have blk: "bulkdelete_block L st cb i (pages, nfp, r)
                 = (pages[i := ?p3], ?nfp1, r + int (dead_count cb ?p))"
      using live loop ne
      by (simp add: bulkdelete_block_def live_page_def Let_def)
    have at: "pages[i := ?p3] ! i = ?p3" using i by simp
    have del: "kept_tuples cb ?p = [] \<Longrightarrow> CuckooPageIsDeleted ?p3"
    proof -
      assume "kept_tuples cb ?p = []"
      then have "unat (maxoff p1) = 0" using um by simp
      then have "maxoff p1 = 0" by (simp add: unat_eq_0)
      then show ?thesis
        by (simp add: CuckooPageSetDeleted_def CuckooPageIsDeleted_def CUCKOO_DELETED_def
            word_bw_assocs)
    qed
    have vac: "vacuumed cb ?p ?p3"
      using live False tk um del unfolding vacuumed_def m3 i3 by simp
    have sl3: "unat (maxoff ?p3) \<le> length (items ?p3)"
      unfolding m3 i3 using um ln sum sl by simp
    have nf: "?nfp1 = nfp \<or>
         (?nfp1 = nfp @ [of_nat (i + 1)] \<and> length nfp < CuckooMetaBlockN L
          \<and> maxoff ?p3 \<noteq> 0 \<and> has_room L st ?p3)"
      unfolding m3 has_room_def free_space_maxoff [OF m3] by simp
    have ln3: "kept_frame cb ?p ?p3"
    proof -
      have "kept_tuples cb ?p \<noteq> [] \<Longrightarrow> maxoff p1 \<noteq> 0"
      proof
        assume "kept_tuples cb ?p \<noteq> []" and "maxoff p1 = 0"
        then show False using um by simp
      qed
      then show ?thesis
        using ln fr by (auto simp: kept_frame_def same_frame_def CuckooPageSetDeleted_def)
    qed
    show ?thesis
      using that [of "pages[i := ?p3]" ?nfp1] blk vac nf sl3 ln3 at by simp
  qed
qed

lemma bulkdelete_fold:
  assumes n: "n \<le> length pages"
    and sl: "\<forall>i < length pages. unat (maxoff (pages ! i)) \<le> length (items (pages ! i))"
  shows "\<exists>pages' js.
           fold (bulkdelete_block L st cb) [0 ..< n] (pages, [], r)
             = (pages', map (\<lambda>i. of_nat (i + 1)) js,
                r + (\<Sum>p \<leftarrow> filter live_page (take n pages). int (dead_count cb p)))
           \<and> length pages' = length pages
           \<and> (\<forall>i < n. vacuumed cb (pages ! i) (pages' ! i))
           \<and> (\<forall>i. n \<le> i \<longrightarrow> pages' ! i = pages ! i)
           \<and> (\<forall>i < length pages'. unat (maxoff (pages' ! i)) \<le> length (items (pages' ! i)))
           \<and> (\<forall>i. kept_frame cb (pages ! i) (pages' ! i))
           \<and> sorted_wrt (<) js \<and> set js \<subseteq> {..< n} \<and> length js \<le> CuckooMetaBlockN L
           \<and> (\<forall>i \<in> set js. maxoff (pages' ! i) \<noteq> 0 \<and> has_room L st (pages' ! i))"
  using n
proof (induction n)
  case 0
  show ?case using sl by (intro exI [of _ pages] exI [of _ "[]"]) (simp add: kept_frame_def)
next
  case (Suc n)
  then have n: "n < length pages" by simp
  let ?r1 = "r + (\<Sum>p \<leftarrow> filter live_page (take n pages). int (dead_count cb p))"
  obtain pages1 js1 where
    f1: "fold (bulkdelete_block L st cb) [0 ..< n] (pages, [], r)
           = (pages1, map (\<lambda>i. of_nat (i + 1)) js1, ?r1)"
    and l1: "length pages1 = length pages"
    and v1: "\<forall>i < n. vacuumed cb (pages ! i) (pages1 ! i)"
    and u1: "\<forall>i. n \<le> i \<longrightarrow> pages1 ! i = pages ! i"
    and s1: "\<forall>i < length pages1. unat (maxoff (pages1 ! i)) \<le> length (items (pages1 ! i))"
    and t1: "\<forall>i. kept_frame cb (pages ! i) (pages1 ! i)"
    and o1: "sorted_wrt (<) js1" and b1: "set js1 \<subseteq> {..< n}"
    and c1: "length js1 \<le> CuckooMetaBlockN L"
    and r1: "\<forall>i \<in> set js1. maxoff (pages1 ! i) \<noteq> 0 \<and> has_room L st (pages1 ! i)"
    using Suc.IH n by auto
  have pn: "pages1 ! n = pages ! n" using u1 by simp
  have tk: "take (Suc n) pages = take n pages @ [pages ! n]"
    using n by (simp add: take_Suc_conv_app_nth)
  have step: "fold (bulkdelete_block L st cb) [0 ..< Suc n] (pages, [], r)
               = bulkdelete_block L st cb n (pages1, map (\<lambda>i. of_nat (i + 1)) js1, ?r1)"
    by (simp add: f1)
  show ?case
  proof (cases "live_page (pages ! n)")
    case False
    have blk: "bulkdelete_block L st cb n (pages1, map (\<lambda>i. of_nat (i + 1)) js1, ?r1)
                 = (pages1, map (\<lambda>i. of_nat (i + 1)) js1, ?r1)"
      using bulkdelete_block_skip False pn by simp
    have vn: "vacuumed cb (pages ! n) (pages1 ! n)"
      using False pn by (simp add: vacuumed_def)
    have v: "\<forall>i < Suc n. vacuumed cb (pages ! i) (pages1 ! i)"
      using v1 vn by (auto simp: less_Suc_eq)
    have b: "set js1 \<subseteq> {..< Suc n}" using b1 by auto
    show ?thesis
      apply (intro exI [of _ pages1] exI [of _ js1])
      using step blk False tk l1 v u1 s1 t1 o1 b c1 r1 by simp
  next
    case True
    have nl: "n < length pages1" using n l1 by simp
    have lv: "live_page (pages1 ! n)" using True pn by simp
    have sn: "unat (maxoff (pages1 ! n)) \<le> length (items (pages1 ! n))" using s1 nl by simp
    obtain pages2 nfp2 where
      blk: "bulkdelete_block L st cb n (pages1, map (\<lambda>i. of_nat (i + 1)) js1, ?r1)
              = (pages2, nfp2, ?r1 + int (dead_count cb (pages1 ! n)))"
      and l2: "length pages2 = length pages1"
      and u2: "\<forall>j. j \<noteq> n \<longrightarrow> pages2 ! j = pages1 ! j"
      and v2: "vacuumed cb (pages1 ! n) (pages2 ! n)"
      and s2: "unat (maxoff (pages2 ! n)) \<le> length (items (pages2 ! n))"
      and t2: "kept_frame cb (pages1 ! n) (pages2 ! n)"
      and nf: "nfp2 = map (\<lambda>i. of_nat (i + 1)) js1 \<or>
         (nfp2 = map (\<lambda>i. of_nat (i + 1)) js1 @ [of_nat (n + 1)]
          \<and> length (map (\<lambda>i. of_nat (i + 1) :: BlockNumber) js1) < CuckooMetaBlockN L
          \<and> maxoff (pages2 ! n) \<noteq> 0 \<and> has_room L st (pages2 ! n))"
      using bulkdelete_block_live [OF nl lv sn, of L st cb "map (\<lambda>i. of_nat (i + 1)) js1" ?r1]
      by blast
    have sum: "?r1 + int (dead_count cb (pages1 ! n))
                 = r + (\<Sum>p \<leftarrow> filter live_page (take (Suc n) pages). int (dead_count cb p))"
      using True pn tk by simp
    have v: "\<forall>i < Suc n. vacuumed cb (pages ! i) (pages2 ! i)"
    proof (intro allI impI)
      fix i assume "i < Suc n"
      then consider "i < n" | "i = n" by linarith
      then show "vacuumed cb (pages ! i) (pages2 ! i)"
      proof cases
        case 1
        then show ?thesis using v1 u2 by simp
      next
        case 2
        then show ?thesis using v2 pn by simp
      qed
    qed
    have u: "\<forall>i. Suc n \<le> i \<longrightarrow> pages2 ! i = pages ! i" using u1 u2 by simp
    have s: "\<forall>i < length pages2. unat (maxoff (pages2 ! i)) \<le> length (items (pages2 ! i))"
    proof (intro allI impI)
      fix i assume "i < length pages2"
      then show "unat (maxoff (pages2 ! i)) \<le> length (items (pages2 ! i))"
        using s1 s2 u2 l2 by (cases "i = n") simp_all
    qed
    have t: "\<forall>i. kept_frame cb (pages ! i) (pages2 ! i)"
    proof
      fix i show "kept_frame cb (pages ! i) (pages2 ! i)"
        using t1 t2 u2 pn by (cases "i = n") simp_all
    qed
    have old: "\<forall>i \<in> set js1. maxoff (pages2 ! i) \<noteq> 0 \<and> has_room L st (pages2 ! i)"
    proof
      fix i assume i: "i \<in> set js1"
      then have "i \<noteq> n" using b1 by auto
      then show "maxoff (pages2 ! i) \<noteq> 0 \<and> has_room L st (pages2 ! i)"
        using r1 u2 i by simp
    qed
    from nf show ?thesis
    proof
      assume e: "nfp2 = map (\<lambda>i. of_nat (i + 1)) js1"
      have b: "set js1 \<subseteq> {..< Suc n}" using b1 by auto
      show ?thesis
        apply (intro exI [of _ pages2] exI [of _ js1])
        using step blk e sum l1 l2 v u s t o1 b c1 old by simp
    next
      assume e: "nfp2 = map (\<lambda>i. of_nat (i + 1)) js1 @ [of_nat (n + 1)]
          \<and> length (map (\<lambda>i. of_nat (i + 1) :: BlockNumber) js1) < CuckooMetaBlockN L
          \<and> maxoff (pages2 ! n) \<noteq> 0 \<and> has_room L st (pages2 ! n)"
      have m: "nfp2 = map (\<lambda>i. of_nat (i + 1)) (js1 @ [n])" using e by simp
      have o: "sorted_wrt (<) (js1 @ [n])" using o1 b1 by (auto simp: sorted_wrt_append)
      have b: "set (js1 @ [n]) \<subseteq> {..< Suc n}" using b1 by auto
      have c: "length (js1 @ [n]) \<le> CuckooMetaBlockN L" using e by simp
      have rr: "\<forall>i \<in> set (js1 @ [n]). maxoff (pages2 ! i) \<noteq> 0 \<and> has_room L st (pages2 ! i)"
        using old e by simp
      show ?thesis
        apply (intro exI [of _ pages2] exI [of _ "js1 @ [n]"])
        using step blk m sum l1 l2 v u s t o b c rr by simp
    qed
  qed
qed

lemma ckbulkdelete_result:
  assumes init: "initCuckooState L index = Inr (st, index1)" and slots: "slots_ok index"
  obtains stats' index' js where
    "ckbulkdelete L index stats cb = Inr (stats', index')"
    and "length (dataPages index') = length (dataPages index)"
    and "\<forall>i < length (dataPages index). vacuumed cb (dataPages index ! i) (dataPages index' ! i)"
    and "slots_ok index'"
    and "\<forall>i. kept_frame cb (dataPages index ! i) (dataPages index' ! i)"
    and "tuples_removed stats' = tuples_removed (case stats of None \<Rightarrow> palloc0_stats | Some s \<Rightarrow> s)
           + (\<Sum>p \<leftarrow> filter live_page (dataPages index). int (dead_count cb p))"
    and "metaPage index' = (metaPage index)
           \<lparr>notFullPage := map (\<lambda>i. of_nat (i + 1)) js @ drop (length js) (notFullPage (metaPage index)),
            nStart := 0, nEnd := of_nat (length js)\<rparr>"
    and "sorted_wrt (<) js" and "set js \<subseteq> {..< length (dataPages index)}"
    and "length js \<le> CuckooMetaBlockN L"
    and "\<forall>i \<in> set js. maxoff (dataPages index' ! i) \<noteq> 0 \<and> has_room L st (dataPages index' ! i)"
    and "fsm index' = fsm index"
proof -
  let ?pages = "dataPages index"
  let ?s1 = "case stats of None \<Rightarrow> palloc0_stats | Some s \<Rightarrow> s"
  have m1: "metaPage index1 = metaPage index" and d1: "dataPages index1 = dataPages index"
    and f1: "fsm index1 = fsm index"
    using initCuckooState_opts [OF init] by simp_all
  have sl: "\<forall>i < length ?pages. unat (maxoff (?pages ! i)) \<le> length (items (?pages ! i))"
    using slots by (simp add: slots_ok_def list_all_length)
  obtain pages' js where
    fo: "fold (bulkdelete_block L st cb) [0 ..< length ?pages] (?pages, [], tuples_removed ?s1)
             = (pages', map (\<lambda>i. of_nat (i + 1)) js,
                tuples_removed ?s1 + (\<Sum>p \<leftarrow> filter live_page (take (length ?pages) ?pages). int (dead_count cb p)))"
    and l: "length pages' = length ?pages"
    and v: "\<forall>i < length ?pages. vacuumed cb (?pages ! i) (pages' ! i)"
    and s: "\<forall>i < length pages'. unat (maxoff (pages' ! i)) \<le> length (items (pages' ! i))"
    and t: "\<forall>i. kept_frame cb (?pages ! i) (pages' ! i)"
    and o: "sorted_wrt (<) js" and b: "set js \<subseteq> {..< length ?pages}"
    and c: "length js \<le> CuckooMetaBlockN L"
    and r: "\<forall>i \<in> set js. maxoff (pages' ! i) \<noteq> 0 \<and> has_room L st (pages' ! i)"
    using bulkdelete_fold [OF le_refl sl, of L st cb "tuples_removed ?s1"] by blast
  let ?meta = "(metaPage index)
           \<lparr>notFullPage := map (\<lambda>i. of_nat (i + 1)) js @ drop (length js) (notFullPage (metaPage index)),
            nStart := 0, nEnd := of_nat (length js)\<rparr>"
  let ?stats' = "?s1\<lparr>tuples_removed := tuples_removed ?s1
                    + (\<Sum>p \<leftarrow> filter live_page ?pages. int (dead_count cb p))\<rparr>"
  let ?index' = "index1\<lparr>dataPages := pages', metaPage := ?meta\<rparr>"
  have run: "ckbulkdelete L index stats cb = Inr (?stats', ?index')"
    using init fo by (simp add: ckbulkdelete_def Let_def m1 d1)
  have so: "slots_ok ?index'" using s by (simp add: slots_ok_def list_all_length)
  show ?thesis
    using that [of ?stats' ?index' js] run l v so t o b c r f1 by simp
qed

text \<open>
  C5. \<open>ckbulkdelete\<close> returns, and of every data page that was neither new nor deleted
  the tuples in use afterwards are exactly those the callback did not report dead, in
  their order and from offset 1 on, with \<open>maxoff\<close> their number; a page without a dead
  tuple is as it was (its registered copy is dropped); a page that lost tuples and kept
  none is flagged deleted; new and deleted pages are as they were; and \<open>tuples_removed\<close>
  has grown by the number of dead tuples.
\<close>

theorem ckbulkdelete_pages:
  assumes init: "initCuckooState L index = Inr (st, index1)" and slots: "slots_ok index"
  shows "\<exists>stats' index'.
           ckbulkdelete L index stats cb = Inr (stats', index')
           \<and> length (dataPages index') = length (dataPages index)
           \<and> (\<forall>i < length (dataPages index).
                 let p = dataPages index ! i; p' = dataPages index' ! i
                 in if live_page p
                    then take (unat (maxoff p')) (items p') = kept_tuples cb p
                         \<and> unat (maxoff p') = length (kept_tuples cb p)
                         \<and> (dead_count cb p = 0 \<longrightarrow> p' = p)
                         \<and> (0 < dead_count cb p \<and> kept_tuples cb p = [] \<longrightarrow> CuckooPageIsDeleted p')
                    else p' = p)
           \<and> tuples_removed stats'
                = tuples_removed (case stats of None \<Rightarrow> palloc0_stats | Some s \<Rightarrow> s)
                  + (\<Sum>p \<leftarrow> filter live_page (dataPages index). int (dead_count cb p))"
proof -
  obtain stats' index' where
    "ckbulkdelete L index stats cb = Inr (stats', index')"
    and "length (dataPages index') = length (dataPages index)"
    and "\<forall>i < length (dataPages index). vacuumed cb (dataPages index ! i) (dataPages index' ! i)"
    and "tuples_removed stats' = tuples_removed (case stats of None \<Rightarrow> palloc0_stats | Some s \<Rightarrow> s)
           + (\<Sum>p \<leftarrow> filter live_page (dataPages index). int (dead_count cb p))"
    using ckbulkdelete_result [OF init slots, of stats cb] by metis
  then show ?thesis
    by (intro exI [of _ stats'] exI [of _ index']) (simp add: vacuumed_def Let_def)
qed

lemma demo_index_init:
  "initCuckooState pg_default demo_index
     = Inr (demo_state, demo_index\<lparr>rd_amcache := Some makeDefaultCuckooOptions\<rparr>)"
  by (simp add: initCuckooState_def demo_index_def demo_rel_def
      CuckooFillMetapage_def CuckooPageIsMeta_flags_def CUCKOO_META_def shl_u32_def
      makeDefaultCuckooOptions_def demo_state_def pg_default_def CUCKOO_MAGIC_NUMBER_def)

lemma demo_page_live: "live_page (hd (dataPages demo_index))"
  by (simp add: live_page_def demo_index_def PageIsNew_def CuckooPageIsDeleted_def
      CuckooInitPage_def pg_default_def MAXALIGN_def sizeof_CuckooPageOpaqueData_def
      CUCKOO_DELETED_def)

lemma demo_page_kept:
  "kept_tuples (\<lambda>t. t = demo_tid) (hd (dataPages demo_index))
     = [\<lparr>heapPtr = demo_tid2, fingerprint = 1\<rparr>]"
  "dead_count (\<lambda>t. t = demo_tid) (hd (dataPages demo_index)) = 1"
  by (simp_all add: kept_tuples_def dead_count_def demo_index_def demo_row_tuple_def
      CuckooFormTuple_def demo_tid_def demo_tid2_def)

theorem ckbulkdelete_pages_witness:
  "initCuckooState pg_default demo_index
     = Inr (demo_state, demo_index\<lparr>rd_amcache := Some makeDefaultCuckooOptions\<rparr>)
   \<and> slots_ok demo_index
   \<and> (\<exists>stats' index'.
         ckbulkdelete pg_default demo_index None (\<lambda>t. t = demo_tid) = Inr (stats', index')
         \<and> take (unat (maxoff (dataPages index' ! 0))) (items (dataPages index' ! 0))
             = [\<lparr>heapPtr = demo_tid2, fingerprint = 1\<rparr>]
         \<and> unat (maxoff (dataPages index' ! 0)) = 1
         \<and> tuples_removed stats' = 1)"
proof -
  have len: "length (dataPages demo_index) = 1" by (simp add: demo_index_def)
  have hd0: "dataPages demo_index ! 0 = hd (dataPages demo_index)"
    by (simp add: demo_index_def)
  have fl: "filter live_page (dataPages demo_index) = [hd (dataPages demo_index)]"
    using demo_page_live by (simp add: demo_index_def)
  show ?thesis
    using ckbulkdelete_pages [OF demo_index_init demo_slots_ok, of None "\<lambda>t. t = demo_tid"]
      demo_index_init demo_slots_ok
    by (auto simp: len hd0 fl demo_page_live demo_page_kept Let_def palloc0_stats_def)
qed

subsection \<open>The ring buffer of pages with room\<close>

lemma has_room_size:
  "sizeOfCuckooTuple st = sizeOfCuckooTuple st' \<Longrightarrow> has_room L st p = has_room L st' p"
  by (simp add: has_room_def CuckooPageGetFreeSpace_def)

lemma CuckooPageAddItem_cases:
  assumes L: "layout_ok L" and st: "sizeOfCuckooTuple st = of_nat (sizeof_CuckooTuple L)"
    and p: "page_ok L p"
  obtains (full) "CuckooPageAddItem L st p t = (False, p)" and "unat (maxoff p) = page_slots L"
  | (added) p' where "CuckooPageAddItem L st p t = (True, p')" and "page_ok L p'"
      and "unat (maxoff p') = unat (maxoff p) + 1" and "unat (maxoff p) < page_slots L"
      and "flags p' = flags p" and "pd_upper p' = pd_upper p"
      and "items p' = (items p)[unat (maxoff p) := t]"
proof (cases "CuckooPageGetFreeSpace L st p < sizeOfCuckooTuple st")
  case True
  from p have le: "unat (maxoff p) \<le> page_slots L" by (simp add: page_ok_def)
  have "unat (maxoff p) = page_slots L" using has_room_iff [OF L st le] True by simp
  moreover have "CuckooPageAddItem L st p t = (False, p)"
    using True by (simp add: CuckooPageAddItem_def)
  ultimately show ?thesis using full by simp
next
  case False
  from p have le: "unat (maxoff p) \<le> page_slots L" and len: "length (items p) = page_slots L"
    by (simp_all add: page_ok_def)
  have lt: "unat (maxoff p) < page_slots L" using has_room_iff [OF L st le] False le by simp
  have inc: "unat (maxoff p + 1) = unat (maxoff p) + 1" using unat_maxoff_inc [OF L lt] .
  obtain p' where r: "CuckooPageAddItem L st p t = (True, p')"
    using False by (simp add: CuckooPageAddItem_def Let_def)
  have "page_ok L p'" "unat (maxoff p') = unat (maxoff p) + 1" "flags p' = flags p"
    "pd_upper p' = pd_upper p" "items p' = (items p)[unat (maxoff p) := t]"
    using r False inc lt len by (auto simp: CuckooPageAddItem_def Let_def page_ok_def)
  then show ?thesis using added [of p'] r lt by simp
qed

lemma try_append_ok:
  assumes L: "layout_ok L" and st: "sizeOfCuckooTuple st = of_nat (sizeof_CuckooTuple L)"
    and p: "page_ok L p"
  shows "page_ok L (snd (try_append L st p t))"
proof -
  let ?q = "if PageIsNew p \<or> CuckooPageIsDeleted p then CuckooInitPage L 0 else p"
  have q: "page_ok L ?q" using p page_ok_init by simp
  show ?thesis
  proof (rule CuckooPageAddItem_cases [OF L st q, of t])
    assume "CuckooPageAddItem L st ?q t = (False, ?q)"
    then have "snd (try_append L st p t) = ?q" by (simp only: try_append_def snd_conv)
    then show ?thesis using q by (simp only:)
  next
    fix p' assume "CuckooPageAddItem L st ?q t = (True, p')" and ok: "page_ok L p'"
    then have "snd (try_append L st p t) = p'" by (simp only: try_append_def snd_conv)
    then show ?thesis using ok by (simp only:)
  qed
qed

lemma read_data_page_blk:
  "read_data_page index b = Inr p \<Longrightarrow>
   1 \<le> unat b \<and> unat b \<le> length (dataPages index) \<and> p = dataPages index ! (unat b - 1)"
  by (auto simp: read_data_page_def split: if_splits)

lemma read_write_other:
  assumes "read_data_page index b = Inr p" and "read_data_page index b' = Inr q" and "b \<noteq> b'"
  shows "read_data_page ((write_data_page index b' q')\<lparr>metaPage := m\<rparr>) b = Inr p"
proof -
  from assms(1) have b: "1 \<le> unat b" "unat b \<le> length (dataPages index)"
      "p = dataPages index ! (unat b - 1)"
    using read_data_page_blk by blast+
  from assms(2) have b': "1 \<le> unat b'" using read_data_page_blk by blast
  have "unat b \<noteq> unat b'" using assms(3) by (simp add: word_unat_eq_iff)
  then have "unat b - 1 \<noteq> unat b' - 1" using b b' by simp
  then show ?thesis using b by (simp add: read_data_page_def write_data_page_def)
qed

lemma pages_ok_write:
  "pages_ok L index \<Longrightarrow> page_ok L q \<Longrightarrow> pages_ok L ((write_data_page index b q)\<lparr>metaPage := m\<rparr>)"
  by (auto simp: pages_ok_def write_data_page_def list_all_iff dest: set_update_subset_insert [THEN subsetD])

lemma insert_walk_Some:
  assumes "insert_walk L st index itup n = Inr (Some index')"
  shows "\<exists>j page page'. n \<le> j \<and> j < nEnd (metaPage index)
           \<and> unat j < length (notFullPage (metaPage index))
           \<and> read_data_page index (notFullPage (metaPage index) ! unat j) = Inr page
           \<and> try_append L st page itup = (True, page')
           \<and> index' = (write_data_page index (notFullPage (metaPage index) ! unat j) page')
                         \<lparr>metaPage := (metaPage index)\<lparr>nStart := j\<rparr>\<rparr>"
  using assms
proof (induction L st index itup n rule: insert_walk.induct)
  case (1 L st index itup n)
  let ?m = "metaPage index"
  from "1.prems" have lt: "n < nEnd ?m"
    by (subst (asm) insert_walk.simps) (auto simp: Let_def split: if_splits)
  from "1.prems" lt have len: "unat n < length (notFullPage ?m)"
    by (subst (asm) insert_walk.simps) (auto simp: Let_def split: if_splits)
  let ?b = "notFullPage ?m ! unat n"
  from "1.prems" lt len obtain page where rd: "read_data_page index ?b = Inr page"
    by (subst (asm) insert_walk.simps) (auto simp: Let_def split: if_splits sum.splits)
  obtain ok page' where ta: "try_append L st page itup = (ok, page')"
    by (cases "try_append L st page itup") auto
  have nle: "\<not> nEnd ?m \<le> n" using lt by simp
  have nlen: "\<not> length (notFullPage ?m) \<le> unat n" using len by simp
  show ?case
  proof (cases ok)
    case True
    have "index' = (write_data_page index ?b page')\<lparr>metaPage := ?m\<lparr>nStart := n\<rparr>\<rparr>"
      using "1.prems" nle nlen rd ta True
      by (subst (asm) insert_walk.simps) (simp add: Let_def)
    then show ?thesis using lt len rd ta True by (intro exI [of _ n] exI [of _ page] exI [of _ page']) simp
  next
    case False
    have nx: "insert_walk L st index itup (n + 1) = Inr (Some index')"
      using "1.prems" nle nlen rd ta False
      by (subst (asm) insert_walk.simps) (simp add: Let_def)
    have le: "n \<le> n + 1" using lt by unat_arith
    obtain j pg pg' where "n + 1 \<le> j" "j < nEnd ?m" "unat j < length (notFullPage ?m)"
        "read_data_page index (notFullPage ?m ! unat j) = Inr pg"
        "try_append L st pg itup = (True, pg')"
        "index' = (write_data_page index (notFullPage ?m ! unat j) pg')\<lparr>metaPage := ?m\<lparr>nStart := j\<rparr>\<rparr>"
      using "1.IH" [OF refl nle nlen refl rd ta [symmetric] _ nx] False by blast
    then show ?thesis using le by (intro exI [of _ j] exI [of _ pg] exI [of _ pg']) simp
  qed
qed

lemma entry_has_roomD:
  "entry_has_room L st index b \<Longrightarrow> \<exists>p. read_data_page index b = Inr p \<and> has_room L st p"
  by (cases "read_data_page index b") (simp_all add: entry_has_room_def)

lemma freelist_inv_append:
  assumes inv: "freelist_inv L st index"
    and j: "unat (nStart (metaPage index)) \<le> unat j" "j < nEnd (metaPage index)"
    and rd: "read_data_page index (notFullPage (metaPage index) ! unat j) = Inr page"
    and ok: "page_ok L page'"
  shows "freelist_inv L st
           ((write_data_page index (notFullPage (metaPage index) ! unat j) page')
              \<lparr>metaPage := (metaPage index)\<lparr>nStart := j\<rparr>\<rparr>)"
proof -
  let ?m = "metaPage index"
  let ?e = "unat (nEnd ?m)" and ?s = "unat (nStart ?m)"
  let ?f = "\<lambda>i. notFullPage ?m ! i"
  let ?b = "?f (unat j)"
  let ?index' = "(write_data_page index ?b page')\<lparr>metaPage := ?m\<lparr>nStart := j\<rparr>\<rparr>"
  have je: "unat j < ?e" using j(2) by (simp add: word_less_nat_alt)
  from inv have len: "length (notFullPage ?m) = CuckooMetaBlockN L"
    and ne: "?e \<le> CuckooMetaBlockN L"
    and dist: "distinct (map ?f [?s ..< ?e])"
    and tail: "\<forall>i \<in> {Suc ?s ..< ?e}. entry_has_room L st index (?f i)"
    and pok: "pages_ok L index" and bound: "length (dataPages index) + 1 < MaxBlockNumber"
    by (simp_all add: freelist_inv_def freelist_from_def freelist_tail_ok_def list_all_iff)
  have inj: "inj_on ?f {?s ..< ?e}" using dist by (simp add: distinct_map)
  have split: "[?s ..< ?e] = [?s ..< unat j] @ [unat j ..< ?e]"
    using j(1) je by (metis le_add_diff_inverse less_imp_le_nat upt_add_eq_append)
  have dist': "distinct (map ?f [unat j ..< ?e])" using dist unfolding split by simp
  have tail': "\<forall>i \<in> {Suc (unat j) ..< ?e}. entry_has_room L st ?index' (?f i)"
  proof
    fix i assume i: "i \<in> {Suc (unat j) ..< ?e}"
    then have i1: "i \<in> {Suc ?s ..< ?e}" and i2: "i \<in> {?s ..< ?e}" using j(1) by auto
    have j2: "unat j \<in> {?s ..< ?e}" using j(1) je by simp
    have "i \<noteq> unat j" using i by simp
    then have nb: "?f i \<noteq> ?b" using inj i2 j2 by (auto dest: inj_onD)
    from tail i1 have "entry_has_room L st index (?f i)" by blast
    then obtain p where rp: "read_data_page index (?f i) = Inr p" and hr: "has_room L st p"
      using entry_has_roomD by blast
    have "read_data_page ?index' (?f i) = Inr p"
      using read_write_other [OF rp rd nb] .
    then show "entry_has_room L st ?index' (?f i)" using hr by (simp add: entry_has_room_def)
  qed
  have pok': "pages_ok L ?index'" using pages_ok_write [OF pok ok] .
  show ?thesis
    using len ne dist' tail' pok' bound
    by (simp add: freelist_inv_def freelist_from_def freelist_tail_ok_def list_all_iff
        write_data_page_def)
qed

lemma CuckooNewBuffer_fsm_Some:
  "CuckooNewBuffer_fsm index bs = Inr (Some b, rest) \<Longrightarrow> \<exists>p. read_data_page index b = Inr p"
  by (induction bs) (auto split: sum.splits if_splits)

lemma page_ok_new: "page_ok L (new_page L)"
  by (simp add: page_ok_def new_page_def)

lemma freelist_inv_new_page:
  assumes L: "layout_ok L" and st: "sizeOfCuckooTuple st = of_nat (sizeof_CuckooTuple L)"
    and inv: "freelist_inv L st' index"
    and run: "insert_new_page L st index itup = Inr index'"
  shows "freelist_inv L st' index'"
proof -
  let ?m = "metaPage index"
  from inv have len: "length (notFullPage ?m) = CuckooMetaBlockN L"
    and pok: "pages_ok L index" and bound: "length (dataPages index) + 1 < MaxBlockNumber"
    by (simp_all add: freelist_inv_def)
  have N: "0 < CuckooMetaBlockN L" using L by (simp add: layout_ok_def)
  from run obtain newblk index2 where nb: "CuckooNewBuffer L index = Inr (newblk, index2)"
    by (auto simp: insert_new_page_def split: sum.splits)
  obtain page' where ad: "CuckooPageAddItem L st (CuckooInitPage L 0) itup = (True, page')"
    and pg: "page_ok L page'"
    using run nb
    by (rule_tac CuckooPageAddItem_cases [OF L st page_ok_init, of 0 itup])
       (auto simp: insert_new_page_def)
  have idx: "index' = (write_data_page index2 newblk page')
               \<lparr>metaPage := ?m\<lparr>nStart := 0, nEnd := 1, notFullPage := (notFullPage ?m)[0 := newblk]\<rparr>\<rparr>"
    using run nb ad by (simp add: insert_new_page_def)
  have p2: "pages_ok L index2 \<and> length (dataPages index2) + 1 < MaxBlockNumber"
    using nb pok bound page_ok_new [of L]
    by (auto simp: CuckooNewBuffer_def pages_ok_def split: sum.splits prod.splits option.splits if_splits)
  have pok': "pages_ok L index'" unfolding idx using pages_ok_write p2 pg by blast
  show ?thesis
    using len N pok' p2 unfolding idx
    by (simp add: freelist_inv_def freelist_from_def freelist_tail_ok_def write_data_page_def)
qed

lemma freelist_inv_cong:
  "metaPage a = metaPage b \<Longrightarrow> dataPages a = dataPages b \<Longrightarrow>
   freelist_inv L st a = freelist_inv L st b"
proof -
  assume m: "metaPage a = metaPage b" and d: "dataPages a = dataPages b"
  have "entry_has_room L st a = entry_has_room L st b"
    by (simp add: fun_eq_iff entry_has_room_def read_data_page_def d)
  then show ?thesis
    by (simp add: freelist_inv_def freelist_from_def freelist_tail_ok_def pages_ok_def m d)
qed

lemma read_page_ok:
  "pages_ok L index \<Longrightarrow> read_data_page index b = Inr p \<Longrightarrow> page_ok L p"
  by (auto simp: pages_ok_def read_data_page_def list_all_length split: if_splits)

lemma freelist_inv_slow:
  assumes L: "layout_ok L" and st: "sizeOfCuckooTuple st = of_nat (sizeof_CuckooTuple L)"
    and inv: "freelist_inv L st' index"
    and run: "insert_slow L st index itup blkno = Inr index'"
  shows "freelist_inv L st' index'"
proof -
  let ?m = "metaPage index"
  let ?n1 = "if nStart ?m < nEnd ?m \<and> blkno = notFullPage ?m ! unat (nStart ?m)
             then nStart ?m + 1 else nStart ?m"
  have le: "unat (nStart ?m) \<le> unat ?n1"
  proof (cases "nStart ?m < nEnd ?m \<and> blkno = notFullPage ?m ! unat (nStart ?m)")
    case True
    then have "nStart ?m < nEnd ?m" by simp
    then have "unat (nStart ?m + 1) = unat (nStart ?m) + 1" by unat_arith
    then show ?thesis by (simp only: if_P [OF True])
  next
    case False
    show ?thesis by (simp only: if_not_P [OF False] le_refl)
  qed
  from inv have pok: "pages_ok L index" by (simp add: freelist_inv_def)
  show ?thesis
  proof (cases "insert_walk L st index itup ?n1")
    case (Inl e)
    then show ?thesis using run by (simp add: insert_slow_def Let_def)
  next
    case (Inr r)
    show ?thesis
    proof (cases r)
      case None
      then have "insert_new_page L st index itup = Inr index'"
        using run Inr by (simp add: insert_slow_def Let_def)
      then show ?thesis using freelist_inv_new_page [OF L st inv] by simp
    next
      case (Some ix)
      then have ix: "ix = index'" using run Inr by (simp add: insert_slow_def Let_def)
      obtain j page page' where j: "?n1 \<le> j" "j < nEnd ?m"
        and rd: "read_data_page index (notFullPage ?m ! unat j) = Inr page"
        and ta: "try_append L st page itup = (True, page')"
        and idx: "index' = (write_data_page index (notFullPage ?m ! unat j) page')
                         \<lparr>metaPage := ?m\<lparr>nStart := j\<rparr>\<rparr>"
        using insert_walk_Some [of L st index itup ?n1 index'] Inr Some ix by blast
      have "unat ?n1 \<le> unat j" using j(1) by (simp add: word_le_nat_alt)
      then have sj: "unat (nStart ?m) \<le> unat j" using le by simp
      have "page_ok L (snd (try_append L st page itup))"
        using try_append_ok [OF L st read_page_ok [OF pok rd]] .
      then have pg: "page_ok L page'" using ta by simp
      show ?thesis unfolding idx using freelist_inv_append [OF inv sj j(2) rd pg] .
    qed
  qed
qed

lemma freelist_inv_ckinsert:
  assumes L: "layout_ok L"
    and inv: "freelist_inv L st' index0"
    and run: "ckinsert L index0 vals isnull tid = Inr index'"
  shows "freelist_inv L st' index'"
proof -
  from run obtain st index where init: "initCuckooState L index0 = Inr (st, index)"
    by (auto simp: ckinsert_def split: sum.splits)
  have st: "sizeOfCuckooTuple st = of_nat (sizeof_CuckooTuple L)"
    and m: "metaPage index = metaPage index0" and d: "dataPages index = dataPages index0"
    using initCuckooState_opts [OF init] by simp_all
  have inv1: "freelist_inv L st' index" using inv freelist_inv_cong [OF m d] by simp
  from inv1 have pok: "pages_ok L index" by (simp add: freelist_inv_def)
  let ?m = "metaPage index"
  let ?itup = "CuckooFormTuple st tid vals isnull"
  let ?b = "notFullPage ?m ! unat (nStart ?m)"
  show ?thesis
  proof (cases "nStart ?m < nEnd ?m")
    case False
    then have "insert_slow L st index ?itup InvalidBlockNumber = Inr index'"
      using run init by (simp add: ckinsert_def Let_def)
    then show ?thesis using freelist_inv_slow [OF L st inv1] by simp
  next
    case True
    then have len: "\<not> length (notFullPage ?m) \<le> unat (nStart ?m)"
      using run init by (auto simp: ckinsert_def Let_def split: if_splits)
    obtain page where rd: "read_data_page index ?b = Inr page"
      using run init True len by (auto simp: ckinsert_def Let_def split: sum.splits)
    obtain ok page' where ta: "try_append L st page ?itup = (ok, page')"
      by (cases "try_append L st page ?itup") auto
    show ?thesis
    proof (cases ok)
      case False
      then have "insert_slow L st index ?itup ?b = Inr index'"
        using run init True len rd ta by (simp add: ckinsert_def Let_def)
      then show ?thesis using freelist_inv_slow [OF L st inv1] by simp
    next
      case ok: True
      have idx: "index' = write_data_page index ?b page'"
        using run init True len rd ta ok by (simp add: ckinsert_def Let_def)
      have "page_ok L (snd (try_append L st page ?itup))"
        using try_append_ok [OF L st read_page_ok [OF pok rd]] .
      then have pg: "page_ok L page'" using ta by simp
      have "freelist_inv L st'
              ((write_data_page index ?b page')\<lparr>metaPage := ?m\<lparr>nStart := nStart ?m\<rparr>\<rparr>)"
        using freelist_inv_append [OF inv1 le_refl True rd pg] .
      moreover have "(write_data_page index ?b page')\<lparr>metaPage := ?m\<lparr>nStart := nStart ?m\<rparr>\<rparr>
                       = write_data_page index ?b page'"
        by (simp add: write_data_page_def)
      ultimately show ?thesis unfolding idx by simp
    qed
  qed
qed

lemma CuckooMetaBlockN_small: "layout_ok L \<Longrightarrow> CuckooMetaBlockN L < 65536"
proof -
  assume L: "layout_ok L"
  let ?x = "BLCKSZ L - SizeOfPageHeaderData L - MAXALIGN L sizeof_CuckooPageOpaqueData
              - MAXALIGN L (2 * 2 + 4 + sizeof_CuckooOptions)"
  have "MAXALIGN_DOWN L ?x \<le> ?x" by (simp add: MAXALIGN_DOWN_def)
  also have "?x \<le> BLCKSZ L" by simp
  also have "BLCKSZ L \<le> 32768" using L by (simp add: layout_ok_def)
  finally have "MAXALIGN_DOWN L ?x \<le> 32768" .
  then have "MAXALIGN_DOWN L ?x div sizeof_BlockNumber \<le> 32768"
    by (meson div_le_dividend le_trans)
  then show ?thesis by (simp add: CuckooMetaBlockN_def)
qed

lemma unat_blkno:
  assumes "i + 1 < MaxBlockNumber"
  shows "unat (of_nat (i + 1) :: BlockNumber) = i + 1"
proof -
  have "i + 1 < 2 ^ 32" using assms by (simp add: MaxBlockNumber_def)
  then show ?thesis by (subst unat_of_nat) simp
qed

lemma freelist_inv_bulkdelete:
  assumes L: "layout_ok L" and st': "sizeOfCuckooTuple st' = of_nat (sizeof_CuckooTuple L)"
    and inv: "freelist_inv L st' index"
    and run: "ckbulkdelete L index stats cb = Inr (stats', index')"
  shows "freelist_inv L st' index' \<and> freelist_ok L st' index'"
proof -
  from run obtain st index1 where init: "initCuckooState L index = Inr (st, index1)"
    by (auto simp: ckbulkdelete_def Let_def split: sum.splits)
  have st: "sizeOfCuckooTuple st = of_nat (sizeof_CuckooTuple L)"
    using initCuckooState_opts [OF init] by simp
  let ?m = "metaPage index" and ?pages = "dataPages index"
  from inv have len: "length (notFullPage ?m) = CuckooMetaBlockN L"
    and pok: "pages_ok L index" and bound: "length ?pages + 1 < MaxBlockNumber"
    by (simp_all add: freelist_inv_def)
  have slots: "slots_ok index"
    using pok by (auto simp: slots_ok_def pages_ok_def page_ok_def list_all_iff)
  let ?g = "\<lambda>i. of_nat (i + 1) :: BlockNumber"
  show ?thesis
  proof (rule ckbulkdelete_result [OF init slots, of stats cb])
  fix stats2 index2 js
  assume run2: "ckbulkdelete L index stats cb = Inr (stats2, index2)"
    and l: "length (dataPages index2) = length ?pages"
    and "\<forall>i < length ?pages. vacuumed cb (?pages ! i) (dataPages index2 ! i)"
    and so: "slots_ok index2"
    and it: "\<forall>i. kept_frame cb (?pages ! i) (dataPages index2 ! i)"
    and "tuples_removed stats2 = tuples_removed (case stats of None \<Rightarrow> palloc0_stats | Some s \<Rightarrow> s)
           + (\<Sum>p \<leftarrow> filter live_page ?pages. int (dead_count cb p))"
    and mp: "metaPage index2 = ?m
           \<lparr>notFullPage := map ?g js @ drop (length js) (notFullPage ?m),
            nStart := 0, nEnd := of_nat (length js)\<rparr>"
    and o: "sorted_wrt (<) js" and b: "set js \<subseteq> {..< length ?pages}"
    and c: "length js \<le> CuckooMetaBlockN L"
    and r: "\<forall>i \<in> set js. maxoff (dataPages index2 ! i) \<noteq> 0 \<and> has_room L st (dataPages index2 ! i)"
    and "fsm index2 = fsm index"
  have ix: "index2 = index'" using run run2 by simp
  have ue: "unat (of_nat (length js) :: uint16) = length js"
  proof -
    have "length js < 2 ^ 16" using c CuckooMetaBlockN_small [OF L] by simp
    then show ?thesis by (subst unat_of_nat) simp
  qed
  have ff: "freelist_from 0 index2 = map ?g js"
  proof -
    have "map (\<lambda>i. (map ?g js @ drop (length js) (notFullPage ?m)) ! i) [0 ..< length js]
            = map (\<lambda>i. map ?g js ! i) [0 ..< length js]"
      by (simp add: nth_append)
    also have "\<dots> = map ?g js" using map_nth [of "map ?g js"] by simp
    finally show ?thesis by (simp add: freelist_from_def mp ue)
  qed
  have un: "\<forall>i \<in> set js. unat (?g i) = i + 1"
  proof
    fix i assume "i \<in> set js"
    then have "i + 1 < MaxBlockNumber" using b bound by auto
    then show "unat (?g i) = i + 1" using unat_blkno by simp
  qed
  have dj: "distinct js" using o by (simp add: strict_sorted_iff)
  have dist: "distinct (map ?g js)"
  proof -
    have "inj_on ?g (set js)"
    proof (rule inj_onI)
      fix x y assume "x \<in> set js" "y \<in> set js" "?g x = ?g y"
      then have "unat (?g x) = unat (?g y)" by simp
      then show "x = y" using un \<open>x \<in> set js\<close> \<open>y \<in> set js\<close> by simp
    qed
    then show ?thesis using dj by (simp add: distinct_map)
  qed
  have room: "\<forall>i \<in> set js. entry_has_room L st' index2 (?g i)"
  proof
    fix i assume i: "i \<in> set js"
    then have il: "i < length (dataPages index2)" using b l by auto
    have u: "unat (?g i) = i + 1" using un i by simp
    have rd: "read_data_page index2 (?g i) = Inr (dataPages index2 ! i)"
      using il u by (simp add: read_data_page_def)
    have "has_room L st (dataPages index2 ! i)" using r i by simp
    then have "has_room L st' (dataPages index2 ! i)"
      using has_room_size [of st st' L] st st' by simp
    then show "entry_has_room L st' index2 (?g i)" using rd by (simp add: entry_has_room_def)
  qed
  have ok: "freelist_ok L st' index2"
    using room by (simp add: freelist_ok_def mp ff [unfolded mp] list_all_iff)
  have sub: "set (freelist_from (Suc 0) index2) \<subseteq> set (freelist_from 0 index2)"
    by (auto simp: freelist_from_def)
  have tail: "freelist_tail_ok L st' index2"
    using room sub unfolding ff by (auto simp: freelist_tail_ok_def mp list_all_iff)
  have pk: "pages_ok L index2"
  proof -
    have "\<forall>i < length (dataPages index2). page_ok L (dataPages index2 ! i)"
    proof (intro allI impI)
      fix i assume i: "i < length (dataPages index2)"
      then have "page_ok L (?pages ! i)" using pok l by (simp add: pages_ok_def list_all_length)
      then have "length (items (dataPages index2 ! i)) = page_slots L"
        using it by (simp add: page_ok_def kept_frame_def)
      moreover have "unat (maxoff (dataPages index2 ! i)) \<le> length (items (dataPages index2 ! i))"
        using so i by (simp add: slots_ok_def list_all_length)
      ultimately show "page_ok L (dataPages index2 ! i)" by (simp add: page_ok_def)
    qed
    then show ?thesis by (simp add: pages_ok_def list_all_length)
  qed
  have d0: "distinct (freelist_from (unat (nStart (metaPage index2))) index2)"
    using dist ff by (simp add: mp)
  have ln: "length (notFullPage (metaPage index2)) = CuckooMetaBlockN L"
    using len c by (simp add: mp)
  have ne: "unat (nEnd (metaPage index2)) \<le> CuckooMetaBlockN L" using c ue by (simp add: mp)
  have "freelist_inv L st' index2"
    using ln ne d0 tail pk l bound by (simp add: freelist_inv_def)
  then show ?thesis using ok ix by simp
  qed
qed

lemma reachable_inv:
  assumes L: "layout_ok L" and st: "sizeOfCuckooTuple st = of_nat (sizeof_CuckooTuple L)"
    and r: "reachable L index"
  shows "freelist_inv L st index"
  using r
proof (induction rule: reachable.induct)
  case (built index)
  then show ?case
    by (simp add: freelist_inv_def freelist_from_def freelist_tail_ok_def)
next
  case (inserted index vals isnull ht_ctid index')
  show ?case using freelist_inv_ckinsert [OF L inserted.IH inserted.hyps(2)] .
next
  case (vacuumed index stats callback stats' index')
  show ?case
    using freelist_inv_bulkdelete [OF L st vacuumed.IH vacuumed.hyps(2)] by (rule conjunct1)
qed

lemma demo_page_n_facts:
  "k \<le> 680 \<Longrightarrow> page_ok pg_default (demo_page_n k) \<and> unat (maxoff (demo_page_n k)) = k
                 \<and> flags (demo_page_n k) = 0 \<and> pd_upper (demo_page_n k) = 8184"
proof (induction k)
  case 0
  show ?case
    by (simp add: demo_page_n.simps page_ok_init)
       (simp add: CuckooInitPage_def pg_default_def MAXALIGN_def sizeof_CuckooPageOpaqueData_def)
next
  case (Suc k)
  then have ih: "page_ok pg_default (demo_page_n k)" "unat (maxoff (demo_page_n k)) = k"
      "flags (demo_page_n k) = 0" "pd_upper (demo_page_n k) = 8184" and k: "k < 680"
    by simp_all
  show ?case
  proof (rule CuckooPageAddItem_cases [OF layout_ok_default demo_state_size ih(1), of demo_row_tuple])
    assume "unat (maxoff (demo_page_n k)) = page_slots pg_default"
    then show ?thesis using ih(2) k by (simp add: page_slots_default)
  next
    fix p'
    assume "CuckooPageAddItem pg_default demo_state (demo_page_n k) demo_row_tuple = (True, p')"
      and "page_ok pg_default p'" and "unat (maxoff p') = unat (maxoff (demo_page_n k)) + 1"
      and "flags p' = flags (demo_page_n k)" and "pd_upper p' = pd_upper (demo_page_n k)"
    then show ?thesis using ih by (simp add: demo_page_n.simps)
  qed
qed

lemma demo_page_n_append:
  assumes "k < 680"
  shows "CuckooPageAddItem pg_default demo_state (demo_page_n k) demo_row_tuple
           = (True, demo_page_n (Suc k))"
proof -
  have f: "page_ok pg_default (demo_page_n k)" "unat (maxoff (demo_page_n k)) = k"
    using demo_page_n_facts [of k] assms by simp_all
  show ?thesis
  proof (rule CuckooPageAddItem_cases [OF layout_ok_default demo_state_size f(1), of demo_row_tuple])
    assume "unat (maxoff (demo_page_n k)) = page_slots pg_default"
    then show ?thesis using f(2) assms by (simp add: page_slots_default)
  next
    fix p'
    assume "CuckooPageAddItem pg_default demo_state (demo_page_n k) demo_row_tuple = (True, p')"
    then show ?thesis by (simp add: demo_page_n.simps)
  qed
qed

lemma demo_built_init:
  "initCuckooState pg_default demo_built
     = Inr (demo_state, demo_built\<lparr>rd_amcache := Some makeDefaultCuckooOptions\<rparr>)"
  by (simp add: initCuckooState_def demo_built_def CuckooInitMetapage_def demo_rel_def
      CuckooFillMetapage_def CuckooPageIsMeta_flags_def CUCKOO_META_def shl_u32_def
      makeDefaultCuckooOptions_def demo_state_def pg_default_def CUCKOO_MAGIC_NUMBER_def)

lemma demo_filled_init:
  "initCuckooState pg_default (demo_filled k) = Inr (demo_state, demo_filled k)"
  by (simp add: initCuckooState_def demo_filled_def demo_built_def CuckooInitMetapage_def
      demo_rel_def shl_u32_def makeDefaultCuckooOptions_def demo_state_def pg_default_def)

lemma demo_built_meta:
  "nStart (metaPage demo_built) = 0" "nEnd (metaPage demo_built) = 0"
  "length (notFullPage (metaPage demo_built)) = 2034"
  "dataPages demo_built = []" "fsm demo_built = []"
  by (simp_all add: demo_built_def CuckooInitMetapage_def CuckooFillMetapage_def
      CuckooMetaBlockN_default demo_rel_def)

lemma demo_first_insert:
  "ckinsert pg_default demo_built [42] [False] demo_tid = Inr (demo_filled (Suc 0))"
proof -
  let ?ix = "demo_built\<lparr>rd_amcache := Some makeDefaultCuckooOptions\<rparr>"
  have walk: "insert_walk pg_default demo_state ?ix demo_row_tuple 0 = Inr None"
    by (subst insert_walk.simps) (simp add: demo_built_meta)
  have nb: "CuckooNewBuffer pg_default ?ix
              = Inr (1, ?ix\<lparr>fsm := [], dataPages := [new_page pg_default]\<rparr>)"
    by (simp add: CuckooNewBuffer_def demo_built_meta MaxBlockNumber_def)
  have ad: "CuckooPageAddItem pg_default demo_state (CuckooInitPage pg_default 0) demo_row_tuple
              = (True, demo_page_n (Suc 0))"
    using demo_page_n_append [of 0] by (simp add: demo_page_n.simps(1))
  have new: "insert_new_page pg_default demo_state ?ix demo_row_tuple = Inr (demo_filled (Suc 0))"
    by (simp add: insert_new_page_def nb ad write_data_page_def demo_filled_def demo_built_meta)
  have n1: "(if nStart (metaPage ?ix) < nEnd (metaPage ?ix)
                \<and> InvalidBlockNumber = notFullPage (metaPage ?ix) ! unat (nStart (metaPage ?ix))
             then nStart (metaPage ?ix) + 1 else nStart (metaPage ?ix)) = 0"
    by (simp add: demo_built_meta)
  have slow: "insert_slow pg_default demo_state ?ix demo_row_tuple InvalidBlockNumber
                = Inr (demo_filled (Suc 0))"
    unfolding insert_slow_def Let_def n1 walk by (simp add: new)
  have lt: "\<not> nStart (metaPage ?ix) < nEnd (metaPage ?ix)" by (simp add: demo_built_meta)
  have tup: "CuckooFormTuple demo_state demo_tid [42] [False] = demo_row_tuple"
    by (simp add: demo_row_tuple_def)
  show ?thesis
    unfolding ckinsert_def demo_built_init Let_def
    by (simp only: sum.case prod.case tup if_not_P [OF lt] slow)
qed

lemma demo_filled_meta:
  "nStart (metaPage (demo_filled k)) = 0" "nEnd (metaPage (demo_filled k)) = 1"
  "length (notFullPage (metaPage (demo_filled k))) = 2034"
  "notFullPage (metaPage (demo_filled k)) ! 0 = 1"
  "dataPages (demo_filled k) = [demo_page_n k]"
  by (simp_all add: demo_filled_def demo_built_meta)

lemma demo_filled_read: "read_data_page (demo_filled k) 1 = Inr (demo_page_n k)"
  by (simp add: read_data_page_def demo_filled_meta)

lemma demo_next_insert:
  assumes "k < 680"
  shows "ckinsert pg_default (demo_filled k) [42] [False] demo_tid = Inr (demo_filled (Suc k))"
proof -
  have f: "flags (demo_page_n k) = 0" "pd_upper (demo_page_n k) = 8184"
    using demo_page_n_facts [of k] assms by simp_all
  have ta: "try_append pg_default demo_state (demo_page_n k) demo_row_tuple
              = (True, demo_page_n (Suc k))"
    using demo_page_n_append [OF assms] f
    by (simp add: try_append_def PageIsNew_def CuckooPageIsDeleted_def)
  have wr: "write_data_page (demo_filled k) 1 (demo_page_n (Suc k)) = demo_filled (Suc k)"
    by (simp add: write_data_page_def demo_filled_def)
  have tup: "CuckooFormTuple demo_state demo_tid [42] [False] = demo_row_tuple"
    by (simp add: demo_row_tuple_def)
  show ?thesis
    unfolding ckinsert_def demo_filled_init Let_def
    by (simp add: tup demo_filled_meta demo_filled_read ta wr)
qed

lemma demo_built_reachable: "reachable pg_default demo_built"
  by (rule reachable.built)
     (simp_all add: demo_built_meta CuckooMetaBlockN_default pages_ok_def MaxBlockNumber_def)

lemma demo_filled_reachable: "k < 680 \<Longrightarrow> reachable pg_default (demo_filled (Suc k))"
proof (induction k)
  case 0
  show ?case using reachable.inserted [OF demo_built_reachable demo_first_insert] .
next
  case (Suc k)
  then have "reachable pg_default (demo_filled (Suc k))" and "Suc k < 680" by simp_all
  then show ?case using reachable.inserted demo_next_insert by blast
qed

text \<open>
  A bulk delete that finds no dead tuple on two pages of one tuple each names both in the
  ring buffer.
\<close>

lemma compact_loop_none_dead:
  assumes "e \<le> length (items page)"
  shows "compact_loop (\<lambda>t. False) e page 0 0 r = (page, e, e, r)"
  using compact_loop_spec [of 0 0 e page "\<lambda>t. False" r] assms
  by (cases "compact_loop (\<lambda>t. False) e page 0 0 r") simp

lemma bulkdelete_block_none_dead:
  assumes lv: "live_page (pages ! i)" and ok: "unat (maxoff (pages ! i)) \<le> length (items (pages ! i))"
    and m: "maxoff (pages ! i) \<noteq> 0" and room: "has_room L st (pages ! i)"
    and n: "length nfp < CuckooMetaBlockN L"
  shows "bulkdelete_block L st (\<lambda>t. False) i (pages, nfp, r) = (pages, nfp @ [of_nat (i + 1)], r)"
  using lv m room n compact_loop_none_dead [OF ok, of r]
  by (simp add: bulkdelete_block_def live_page_def has_room_def Let_def)

lemma demo_page_one:
  "live_page (demo_page_n (Suc 0))" "unat (maxoff (demo_page_n (Suc 0))) \<le> length (items (demo_page_n (Suc 0)))"
  "maxoff (demo_page_n (Suc 0)) \<noteq> 0" "has_room pg_default demo_state (demo_page_n (Suc 0))"
  "page_ok pg_default (demo_page_n (Suc 0))"
proof -
  have f: "page_ok pg_default (demo_page_n (Suc 0))" "unat (maxoff (demo_page_n (Suc 0))) = 1"
      "flags (demo_page_n (Suc 0)) = 0" "pd_upper (demo_page_n (Suc 0)) = 8184"
    using demo_page_n_facts [of "Suc 0"] by simp_all
  show "live_page (demo_page_n (Suc 0))"
    using f(3,4) by (simp add: live_page_def PageIsNew_def CuckooPageIsDeleted_def CUCKOO_DELETED_def)
  show "unat (maxoff (demo_page_n (Suc 0))) \<le> length (items (demo_page_n (Suc 0)))"
    using f(1,2) by (simp add: page_ok_def page_slots_default)
  show "maxoff (demo_page_n (Suc 0)) \<noteq> 0" using f(2) by auto
  have le: "unat (maxoff (demo_page_n (Suc 0))) \<le> page_slots pg_default"
    using f(2) by (simp add: page_slots_default)
  show "has_room pg_default demo_state (demo_page_n (Suc 0))"
    using has_room_iff [OF layout_ok_default demo_state_size le] f(2)
    by (simp add: has_room_def page_slots_default not_less)
  show "page_ok pg_default (demo_page_n (Suc 0))" using f(1) .
qed

lemma demo_two_init: "initCuckooState pg_default demo_two = Inr (demo_state, demo_two)"
  by (simp add: initCuckooState_def demo_two_def demo_built_def CuckooInitMetapage_def
      demo_rel_def shl_u32_def makeDefaultCuckooOptions_def demo_state_def pg_default_def)

lemma demo_two_meta:
  "nStart (metaPage demo_two) = 0" "nEnd (metaPage demo_two) = 0"
  "length (notFullPage (metaPage demo_two)) = 2034"
  "dataPages demo_two = [demo_page_n (Suc 0), demo_page_n (Suc 0)]"
  by (simp_all add: demo_two_def demo_built_meta)

lemma demo_two_reachable: "reachable pg_default demo_two"
  by (rule reachable.built)
     (simp_all add: demo_two_meta CuckooMetaBlockN_default pages_ok_def MaxBlockNumber_def
        demo_page_one)

lemma demo_two_bulkdelete:
  "ckbulkdelete pg_default demo_two None (\<lambda>t. False) = Inr (palloc0_stats, demo_ring2)"
proof -
  let ?pg = "[demo_page_n (Suc 0), demo_page_n (Suc 0)]"
  have b0: "bulkdelete_block pg_default demo_state (\<lambda>t. False) 0 (?pg, [], 0) = (?pg, [1], 0)"
    using bulkdelete_block_none_dead [of ?pg 0 pg_default demo_state "[]" 0] demo_page_one
    by (simp add: CuckooMetaBlockN_default)
  have b1: "bulkdelete_block pg_default demo_state (\<lambda>t. False) (Suc 0) (?pg, [1], 0) = (?pg, [1, 2], 0)"
    using bulkdelete_block_none_dead [of ?pg "Suc 0" pg_default demo_state "[1]" 0] demo_page_one
    by (simp add: CuckooMetaBlockN_default)
  have e: "demo_two\<lparr>dataPages := ?pg\<rparr> = demo_two" by (simp add: demo_two_def)
  show ?thesis
    by (simp add: ckbulkdelete_def demo_two_init demo_two_meta palloc0_stats_def demo_ring2_def
        Let_def b0 b1 e numeral_2_eq_2)
qed

lemma demo_ring2_reachable: "reachable pg_default demo_ring2"
  using reachable.vacuumed [OF demo_two_reachable demo_two_bulkdelete] .

lemma demo_ring2_meta:
  "nStart (metaPage demo_ring2) = 0" "nEnd (metaPage demo_ring2) = 2"
  "freelist_from 0 demo_ring2 = [1, 2]" "freelist_from (Suc 0) demo_ring2 = [2]"
  by (simp_all add: demo_ring2_def freelist_from_def upt_rec)

text \<open>
  After 680 inserts into the empty index on the stock layout the only data page is full,
  and the ring buffer still names it at \<open>nStart\<close>: the fast path of \<open>ckinsert\<close> leaves the
  metapage alone when the page takes the tuple, also when that tuple was the last that fits.
\<close>

theorem freelist_full_page_counterexample:
  "reachable pg_default (demo_filled 680) \<and> \<not> freelist_ok pg_default demo_state (demo_filled 680)"
proof
  show "reachable pg_default (demo_filled 680)"
    using demo_filled_reachable [of 679] by simp
  have f: "page_ok pg_default (demo_page_n 680)" "unat (maxoff (demo_page_n 680)) = 680"
    using demo_page_n_facts [of 680] by simp_all
  then have le: "unat (maxoff (demo_page_n 680)) \<le> page_slots pg_default"
    by (simp add: page_slots_default)
  have "\<not> has_room pg_default demo_state (demo_page_n 680)"
    using has_room_iff [OF layout_ok_default demo_state_size le] f(2)
    by (simp add: has_room_def page_slots_default)
  then show "\<not> freelist_ok pg_default demo_state (demo_filled 680)"
    by (simp add: freelist_ok_def freelist_from_def entry_has_room_def demo_filled_meta
        demo_filled_read)
qed

text \<open>
  C6, as the code has it. In every state reached from a built index by inserts and bulk
  deletes, every entry of the ring buffer after the one at \<open>nStart\<close> and before \<open>nEnd\<close>
  names a data page with room for one more tuple; and right after a bulk delete every
  entry from \<open>nStart\<close> to \<open>nEnd\<close> does.
\<close>

theorem freelist_tail_has_room:
  assumes L: "layout_ok L" and st: "sizeOfCuckooTuple st = of_nat (sizeof_CuckooTuple L)"
    and r: "reachable L index"
  shows "freelist_tail_ok L st index
         \<and> (ckbulkdelete L index stats cb = Inr (stats', index') \<longrightarrow> freelist_ok L st index')"
proof (intro conjI impI)
  have inv: "freelist_inv L st index" using reachable_inv [OF L st r] .
  then show "freelist_tail_ok L st index" by (simp add: freelist_inv_def)
  assume run: "ckbulkdelete L index stats cb = Inr (stats', index')"
  show "freelist_ok L st index'"
    using freelist_inv_bulkdelete [OF L st inv run] by (rule conjunct2)
qed

theorem freelist_tail_has_room_witness:
  "layout_ok pg_default \<and> sizeOfCuckooTuple demo_state = of_nat (sizeof_CuckooTuple pg_default)
   \<and> reachable pg_default demo_two
   \<and> ckbulkdelete pg_default demo_two None (\<lambda>t. False) = Inr (palloc0_stats, demo_ring2)
   \<and> reachable pg_default demo_ring2
   \<and> freelist_from (unat (nStart (metaPage demo_ring2))) demo_ring2 = [1, 2]
   \<and> freelist_from (Suc (unat (nStart (metaPage demo_ring2)))) demo_ring2 = [2]
   \<and> freelist_ok pg_default demo_state demo_ring2
   \<and> freelist_tail_ok pg_default demo_state demo_ring2"
proof -
  have ok: "freelist_ok pg_default demo_state demo_ring2"
    using freelist_tail_has_room [OF layout_ok_default demo_state_size demo_two_reachable,
        of None "\<lambda>t. False" palloc0_stats demo_ring2] demo_two_bulkdelete
    by simp
  have tl: "freelist_tail_ok pg_default demo_state demo_ring2"
    using freelist_tail_has_room [OF layout_ok_default demo_state_size demo_ring2_reachable]
    by (rule conjunct1)
  show ?thesis
    using layout_ok_default demo_state_size demo_two_reachable demo_two_bulkdelete
      demo_ring2_reachable demo_ring2_meta ok tl
    by simp
qed

subsection \<open>The build\<close>

lemma flushCachedPage_no_reject: "flushCachedPage L index bs \<noteq> Inl EmptyPageRejected"
  using CuckooNewBuffer_no_reject [of L index]
  by (auto simp: flushCachedPage_def split: sum.splits prod.splits)

lemma cuckooBuildCallback_no_reject:
  assumes L: "layout_ok L"
    and st: "sizeOfCuckooTuple (bs_ckstate bs) = of_nat (sizeof_CuckooTuple L)"
  shows "cuckooBuildCallback L tid vals isnull (index, bs) \<noteq> Inl EmptyPageRejected"
proof -
  let ?itup = "CuckooFormTuple (bs_ckstate bs) tid vals isnull"
  have acc: "fst (CuckooPageAddItem L (bs_ckstate bs) (CuckooInitPage L 0) ?itup)"
    using init_page_accepts [OF L st] .
  obtain ok page' where a1: "CuckooPageAddItem L (bs_ckstate bs) (bs_data bs) ?itup = (ok, page')"
    by (cases "CuckooPageAddItem L (bs_ckstate bs) (bs_data bs) ?itup") auto
  obtain page'' where a2: "CuckooPageAddItem L (bs_ckstate bs) (CuckooInitPage L 0) ?itup = (True, page'')"
    using acc by (cases "CuckooPageAddItem L (bs_ckstate bs) (CuckooInitPage L 0) ?itup") auto
  show ?thesis
  proof (cases ok)
    case True
    then show ?thesis using a1 by (simp add: cuckooBuildCallback_def Let_def)
  next
    case False
    then show ?thesis
      using a1 a2 flushCachedPage_no_reject [of L index bs]
      by (auto simp: cuckooBuildCallback_def Let_def initCachedPage_def split: sum.splits)
  qed
qed

lemma cuckooBuildCallback_state:
  "cuckooBuildCallback L tid vals isnull (index, bs) = Inr (index', bs') \<Longrightarrow>
   bs_ckstate bs' = bs_ckstate bs"
  by (auto simp: cuckooBuildCallback_def Let_def initCachedPage_def
      split: prod.splits bool.splits sum.splits)

lemma build_scan_no_reject:
  assumes L: "layout_ok L"
  shows "sizeOfCuckooTuple (bs_ckstate (snd acc)) = of_nat (sizeof_CuckooTuple L) \<Longrightarrow>
         build_scan L rows acc \<noteq> Inl EmptyPageRejected"
proof (induction rows arbitrary: acc)
  case Nil
  then show ?case by simp
next
  case (Cons row rows)
  obtain tid vals isnull where row: "row = (tid, vals, isnull)" by (cases row) auto
  obtain index bs where acc: "acc = (index, bs)" by (cases acc) auto
  have st: "sizeOfCuckooTuple (bs_ckstate bs) = of_nat (sizeof_CuckooTuple L)"
    using Cons.prems acc by simp
  show ?case
  proof (cases "cuckooBuildCallback L tid vals isnull (index, bs)")
    case (Inl e)
    then have "e \<noteq> EmptyPageRejected"
      using cuckooBuildCallback_no_reject [OF L st, of tid vals isnull index] by auto
    then show ?thesis using Inl row acc by simp
  next
    case (Inr acc')
    obtain index' bs' where acc': "acc' = (index', bs')" by (cases acc') auto
    have "bs_ckstate bs' = bs_ckstate bs"
      using cuckooBuildCallback_state Inr acc' by blast
    then have "sizeOfCuckooTuple (bs_ckstate (snd acc')) = of_nat (sizeof_CuckooTuple L)"
      using st acc' by simp
    then show ?thesis using Cons.IH Inr row acc by simp
  qed
qed

lemma ckbuild_no_reject:
  assumes L: "layout_ok L"
  shows "ckbuild L nblocks index rows \<noteq> Inl EmptyPageRejected"
proof (cases "initCuckooState L (CuckooInitMetapage L index)")
  case (Inl e)
  then have "e \<noteq> EmptyPageRejected"
    by (auto simp: initCuckooState_def shl_u32_def split: option.splits if_splits sum.splits)
  then show ?thesis using Inl by (simp add: ckbuild_def)
next
  case (Inr r)
  obtain st index1 where r: "r = (st, index1)" by (cases r) auto
  have sz: "sizeOfCuckooTuple st = of_nat (sizeof_CuckooTuple L)"
    using initCuckooState_opts [of L "CuckooInitMetapage L index" st index1] Inr r by simp
  let ?bs = "initCachedPage L \<lparr>bs_ckstate = st, indtuples = 0, bs_data = new_page L, bs_count = 0\<rparr>"
  have "sizeOfCuckooTuple (bs_ckstate (snd (index1, ?bs))) = of_nat (sizeof_CuckooTuple L)"
    using sz by (simp add: initCachedPage_def)
  then have scan: "build_scan L rows (index1, ?bs) \<noteq> Inl EmptyPageRejected"
    using build_scan_no_reject [OF L] by blast
  show ?thesis
  proof (cases "build_scan L rows (index1, ?bs)")
    case (Inl e)
    then show ?thesis using scan Inr r by (auto simp: ckbuild_def Let_def)
  next
    case (Inr acc)
    obtain index2 bs' where acc: "acc = (index2, bs')" by (cases acc) auto
    show ?thesis
      using \<open>initCuckooState L (CuckooInitMetapage L index) = Inr r\<close> r Inr acc
        flushCachedPage_no_reject [of L index2 bs']
      by (auto simp: ckbuild_def Let_def split: sum.splits)
  qed
qed

lemma CuckooNewBuffer_ok:
  assumes "CuckooNewBuffer L index = Inr (b, index2)" and "pages_ok L index"
    and "length (dataPages index) + 1 < MaxBlockNumber"
  shows "pages_ok L index2 \<and> length (dataPages index2) + 1 < MaxBlockNumber
         \<and> metaPage index2 = metaPage index"
  using assms page_ok_new [of L]
  by (auto simp: CuckooNewBuffer_def pages_ok_def split: sum.splits prod.splits option.splits if_splits)

lemma flushCachedPage_inv:
  assumes "build_inv L (index, bs)" and "flushCachedPage L index bs = Inr index'"
  shows "build_inv L (index', bs)"
proof -
  from assms(2) obtain b index2 where nb: "CuckooNewBuffer L index = Inr (b, index2)"
    and ix: "index' = write_data_page index2 b (bs_data bs)"
    by (auto simp: flushCachedPage_def split: sum.splits)
  have ok: "pages_ok L index2 \<and> length (dataPages index2) + 1 < MaxBlockNumber
         \<and> metaPage index2 = metaPage index"
    using CuckooNewBuffer_ok [OF nb] assms(1) by (simp add: build_inv_def)
  have "pages_ok L ((write_data_page index2 b (bs_data bs))\<lparr>metaPage := metaPage index2\<rparr>)"
    using pages_ok_write ok assms(1) by (simp add: build_inv_def)
  then have "pages_ok L index'" by (simp add: ix write_data_page_def pages_ok_def)
  then show ?thesis using ok assms(1) by (simp add: build_inv_def ix write_data_page_def)
qed

lemma cuckooBuildCallback_inv:
  assumes L: "layout_ok L" and inv: "build_inv L (index, bs)"
    and run: "cuckooBuildCallback L tid vals isnull (index, bs) = Inr (index', bs')"
  shows "build_inv L (index', bs')"
proof -
  let ?st = "bs_ckstate bs"
  let ?itup = "CuckooFormTuple ?st tid vals isnull"
  from inv have st: "sizeOfCuckooTuple ?st = of_nat (sizeof_CuckooTuple L)"
    and pg: "page_ok L (bs_data bs)" by (simp_all add: build_inv_def)
  show ?thesis
  proof (rule CuckooPageAddItem_cases [OF L st pg, of ?itup])
    fix p' assume a: "CuckooPageAddItem L ?st (bs_data bs) ?itup = (True, p')" and ok: "page_ok L p'"
    then have "index' = index" "bs_ckstate bs' = ?st" "bs_data bs' = p'"
      using run by (auto simp: cuckooBuildCallback_def Let_def)
    then show ?thesis using inv ok by (simp add: build_inv_def)
  next
    assume a: "CuckooPageAddItem L ?st (bs_data bs) ?itup = (False, bs_data bs)"
    from run a obtain ix where fl: "flushCachedPage L index bs = Inr ix"
      by (auto simp: cuckooBuildCallback_def Let_def split: sum.splits)
    have inv1: "build_inv L (ix, bs)" using flushCachedPage_inv [OF inv fl] .
    show ?thesis
    proof (rule CuckooPageAddItem_cases [OF L st page_ok_init, of 0 ?itup])
      fix p' assume b: "CuckooPageAddItem L ?st (CuckooInitPage L 0) ?itup = (True, p')"
        and ok: "page_ok L p'"
      then have "index' = ix" "bs_ckstate bs' = ?st" "bs_data bs' = p'"
        using run a fl by (auto simp: cuckooBuildCallback_def Let_def initCachedPage_def)
      then show ?thesis using inv1 ok by (simp add: build_inv_def)
    next
      assume "CuckooPageAddItem L ?st (CuckooInitPage L 0) ?itup = (False, CuckooInitPage L 0)"
      then show ?thesis
        using run a fl by (simp add: cuckooBuildCallback_def Let_def initCachedPage_def)
    qed
  qed
qed

lemma build_scan_inv:
  assumes L: "layout_ok L"
  shows "build_inv L acc \<Longrightarrow> build_scan L rows acc = Inr acc' \<Longrightarrow> build_inv L acc'"
proof (induction rows arbitrary: acc)
  case Nil
  then show ?case by simp
next
  case (Cons row rows)
  obtain tid vals isnull where row: "row = (tid, vals, isnull)" by (cases row) auto
  obtain index bs where acc: "acc = (index, bs)" by (cases acc) auto
  from Cons.prems(2) obtain a1 where c: "cuckooBuildCallback L tid vals isnull (index, bs) = Inr a1"
    and rest: "build_scan L rows a1 = Inr acc'"
    using row acc by (auto split: sum.splits)
  obtain i1 b1 where a1: "a1 = (i1, b1)" by (cases a1) auto
  have "build_inv L a1"
    using cuckooBuildCallback_inv [OF L _ c [unfolded a1]] Cons.prems(1) acc a1 by simp
  then show ?case using Cons.IH rest by blast
qed

lemma ckbuild_reachable:
  assumes L: "layout_ok L" and run: "ckbuild L nblocks index rows = Inr (res, index')"
  shows "reachable L index'"
proof -
  from run obtain st index1 where init: "initCuckooState L (CuckooInitMetapage L index) = Inr (st, index1)"
    by (auto simp: ckbuild_def split: if_splits sum.splits)
  have f: "sizeOfCuckooTuple st = of_nat (sizeof_CuckooTuple L)"
      "metaPage index1 = metaPage (CuckooInitMetapage L index)"
      "dataPages index1 = dataPages (CuckooInitMetapage L index)"
    using initCuckooState_opts [OF init] by simp_all
  let ?bs = "initCachedPage L \<lparr>bs_ckstate = st, indtuples = 0, bs_data = new_page L, bs_count = 0\<rparr>"
  have inv0: "build_inv L (index1, ?bs)"
    using f page_ok_init [of L 0]
    by (simp add: build_inv_def initCachedPage_def CuckooInitMetapage_def CuckooFillMetapage_def
        pages_ok_def MaxBlockNumber_def)
  from run init obtain index2 bs' where sc: "build_scan L rows (index1, ?bs) = Inr (index2, bs')"
    by (auto simp: ckbuild_def Let_def split: if_splits sum.splits)
  have inv2: "build_inv L (index2, bs')" using build_scan_inv [OF L inv0 sc] .
  have inv3: "build_inv L (index', bs')"
  proof (cases "bs_count bs' > 0")
    case True
    then have "flushCachedPage L index2 bs' = Inr index'"
      using run init sc by (auto simp: ckbuild_def Let_def split: if_splits sum.splits)
    then show ?thesis using flushCachedPage_inv [OF inv2] by simp
  next
    case False
    then have "index' = index2"
      using run init sc by (auto simp: ckbuild_def Let_def split: if_splits sum.splits)
    then show ?thesis using inv2 by simp
  qed
  then show ?thesis by (intro reachable.built) (simp_all add: build_inv_def)
qed

text \<open>
  C8. On every layout whose block holds the header, the trailer and one tuple, a page
  just produced by \<open>CuckooInitPage\<close> accepts a tuple; so neither \<open>ckinsert\<close> nor the build,
  whose callback makes the same two calls after flushing a full page, ever ends with
  "could not add new cuckoo tuple to empty page".
\<close>

theorem empty_page_accepts:
  assumes L: "layout_ok L"
  shows "(sizeOfCuckooTuple st = of_nat (sizeof_CuckooTuple L) \<longrightarrow>
            fst (CuckooPageAddItem L st (CuckooInitPage L fl) t))
         \<and> ckinsert L index vals isnull tid \<noteq> Inl EmptyPageRejected
         \<and> ckbuild L nblocks index0 rows \<noteq> Inl EmptyPageRejected"
proof (intro conjI)
  show "sizeOfCuckooTuple st = of_nat (sizeof_CuckooTuple L) \<longrightarrow>
            fst (CuckooPageAddItem L st (CuckooInitPage L fl) t)"
    using init_page_accepts [OF L] by simp
  show "ckbuild L nblocks index0 rows \<noteq> Inl EmptyPageRejected"
    using ckbuild_no_reject [OF L] .
  show "ckinsert L index vals isnull tid \<noteq> Inl EmptyPageRejected"
  proof (cases "initCuckooState L index")
    case (Inl e)
    then have "e \<noteq> EmptyPageRejected"
      by (auto simp: initCuckooState_def shl_u32_def split: option.splits if_splits sum.splits)
    with Inl show ?thesis by (simp add: ckinsert_def)
  next
    case (Inr r)
    obtain st' index' where r: "r = (st', index')" by (cases r)
    have sz: "sizeOfCuckooTuple st' = of_nat (sizeof_CuckooTuple L)"
      using initCuckooState_opts [of L index st' index'] Inr r by simp
    have rd: "\<And>b. read_data_page index' b \<noteq> Inl EmptyPageRejected"
      by (simp add: read_data_page_def)
    show ?thesis
      using Inr r insert_slow_no_reject [OF L sz] rd
      by (auto simp: ckinsert_def Let_def split: sum.splits prod.splits bool.splits)
  qed
qed

theorem empty_page_accepts_witness:
  "layout_ok pg_default
   \<and> fst (CuckooPageAddItem pg_default demo_state (CuckooInitPage pg_default 0) demo_row_tuple)
   \<and> ckinsert pg_default demo_index [42] [False] demo_tid \<noteq> Inl EmptyPageRejected
   \<and> ckbuild pg_default 0 demo_rel [(demo_tid, [42], [False])] \<noteq> Inl EmptyPageRejected"
  using empty_page_accepts [OF layout_ok_default, where st = demo_state and fl = 0
        and t = demo_row_tuple and index = demo_index and vals = "[42]" and isnull = "[False]"
        and tid = demo_tid and nblocks = 0 and ?index0.0 = demo_rel
        and rows = "[(demo_tid, [42], [False])]"]
    layout_ok_default demo_state_size
  by simp

subsection \<open>Stored tuples under insert and bulk delete\<close>

lemma init_page_live:
  assumes L: "layout_ok L"
  shows "live_page (CuckooInitPage L 0)"
proof -
  let ?u = "BLCKSZ L - MAXALIGN L sizeof_CuckooPageOpaqueData"
  from L have "0 < ?u" unfolding layout_ok_def by linarith
  moreover have "?u < 2 ^ 16"
  proof -
    have "?u \<le> BLCKSZ L" by simp
    also have "BLCKSZ L \<le> 32768" using L by (simp add: layout_ok_def)
    finally show ?thesis by simp
  qed
  ultimately have "unat (of_nat ?u :: uint16) \<noteq> 0" by (subst unat_of_nat) simp
  then have "(of_nat ?u :: uint16) \<noteq> 0" by (metis unat_0)
  then show ?thesis
    by (simp add: live_page_def PageIsNew_def CuckooPageIsDeleted_def CuckooInitPage_def)
qed

lemma append_stores:
  assumes L: "layout_ok L" and st: "sizeOfCuckooTuple st = of_nat (sizeof_CuckooTuple L)"
    and pg: "page_ok L page" and ta: "try_append L st page itup = (True, page')"
  shows "live_page page' \<and> itup \<in> set (take (unat (maxoff page')) (items page'))
         \<and> (live_page page \<longrightarrow>
               set (take (unat (maxoff page)) (items page))
                 \<subseteq> set (take (unat (maxoff page')) (items page')))"
proof -
  let ?q = "if PageIsNew page \<or> CuckooPageIsDeleted page then CuckooInitPage L 0 else page"
  have q: "page_ok L ?q" using pg page_ok_init by simp
  have lq: "live_page ?q" using init_page_live [OF L] by (simp add: live_page_def)
  have ql: "live_page page \<Longrightarrow> ?q = page" by (simp add: live_page_def)
  have ad: "CuckooPageAddItem L st ?q itup = (True, page')" using ta by (simp add: try_append_def)
  show ?thesis
  proof (rule CuckooPageAddItem_cases [OF L st q, of itup])
    assume "CuckooPageAddItem L st ?q itup = (False, ?q)"
    then show ?thesis using ad by simp
  next
    fix p'
    assume r: "CuckooPageAddItem L st ?q itup = (True, p')" and "page_ok L p'"
      and m: "unat (maxoff p') = unat (maxoff ?q) + 1" and lt: "unat (maxoff ?q) < page_slots L"
      and fl: "flags p' = flags ?q" and up: "pd_upper p' = pd_upper ?q"
      and it: "items p' = (items ?q)[unat (maxoff ?q) := itup]"
    have e: "p' = page'" using r ad by simp
    have len: "unat (maxoff ?q) < length (items ?q)" using q lt by (simp add: page_ok_def)
    have tk: "take (unat (maxoff p')) (items p') = take (unat (maxoff ?q)) (items ?q) @ [itup]"
      unfolding m it using len by (simp add: take_Suc_conv_app_nth)
    have lv: "live_page p'" using lq fl up by (simp add: live_page_def PageIsNew_def CuckooPageIsDeleted_def)
    have sub: "live_page page \<longrightarrow>
               set (take (unat (maxoff page)) (items page)) \<subseteq> set (take (unat (maxoff p')) (items p'))"
    proof
      assume "live_page page"
      then have "?q = page" using ql by simp
      then show "set (take (unat (maxoff page)) (items page)) \<subseteq> set (take (unat (maxoff p')) (items p'))"
        using tk by auto
    qed
    show ?thesis using lv tk sub unfolding e [symmetric] by simp
  qed
qed

lemma tuple_stored_iff:
  "tuple_stored index t \<longleftrightarrow>
     (\<exists>i < length (dataPages index). live_page (dataPages index ! i)
         \<and> t \<in> set (take (unat (maxoff (dataPages index ! i))) (items (dataPages index ! i))))"
  by (auto simp: tuple_stored_def list_ex_length live_page_def)

lemma append_write_stored:
  assumes L: "layout_ok L" and st: "sizeOfCuckooTuple st = of_nat (sizeof_CuckooTuple L)"
    and pg: "page_ok L page" and rd: "read_data_page ix b = Inr page"
    and ta: "try_append L st page itup = (True, page')"
  shows "tuple_stored ((write_data_page ix b page')\<lparr>metaPage := m\<rparr>) itup
         \<and> (\<forall>t. tuple_stored ix t \<longrightarrow> tuple_stored ((write_data_page ix b page')\<lparr>metaPage := m\<rparr>) t)"
proof -
  let ?ix' = "(write_data_page ix b page')\<lparr>metaPage := m\<rparr>"
  let ?k = "unat b - 1"
  have b: "1 \<le> unat b" "unat b \<le> length (dataPages ix)" "page = dataPages ix ! ?k"
    using read_data_page_blk [OF rd] by simp_all
  then have k: "?k < length (dataPages ix)" by simp
  have dp: "dataPages ?ix' = (dataPages ix)[?k := page']" by (simp add: write_data_page_def)
  have s: "live_page page'" "itup \<in> set (take (unat (maxoff page')) (items page'))"
      "live_page page \<longrightarrow> set (take (unat (maxoff page)) (items page))
                 \<subseteq> set (take (unat (maxoff page')) (items page'))"
    using append_stores [OF L st pg ta] by simp_all
  have new: "tuple_stored ?ix' itup"
    unfolding tuple_stored_iff dp using k s(1,2) by (intro exI [of _ ?k]) simp
  have old: "\<forall>t. tuple_stored ix t \<longrightarrow> tuple_stored ?ix' t"
  proof (intro allI impI)
    fix t assume "tuple_stored ix t"
    then obtain i where i: "i < length (dataPages ix)" "live_page (dataPages ix ! i)"
        "t \<in> set (take (unat (maxoff (dataPages ix ! i))) (items (dataPages ix ! i)))"
      unfolding tuple_stored_iff by blast
    show "tuple_stored ?ix' t"
    proof (cases "i = ?k")
      case True
      then have "t \<in> set (take (unat (maxoff page')) (items page'))" using i b(3) s(3) by auto
      then show ?thesis unfolding tuple_stored_iff dp using k s(1) by (intro exI [of _ ?k]) simp
    next
      case False
      then show ?thesis unfolding tuple_stored_iff dp using i by (intro exI [of _ i]) simp
    qed
  qed
  show ?thesis using new old by simp
qed

lemma CuckooNewBuffer_fsm_free:
  "CuckooNewBuffer_fsm index bs = Inr (Some b, rest) \<Longrightarrow>
   \<exists>p. read_data_page index b = Inr p \<and> \<not> live_page p"
  by (induction bs) (auto simp: live_page_def split: sum.splits if_splits)

lemma CuckooNewBuffer_free:
  assumes nb: "CuckooNewBuffer L index = Inr (b, index2)"
  shows "\<exists>p. read_data_page index2 b = Inr p \<and> \<not> live_page p
             \<and> (page_ok L p \<or> p \<in> set (dataPages index))
             \<and> (\<forall>t. tuple_stored index t \<longrightarrow> tuple_stored index2 t)"
proof (cases "CuckooNewBuffer_fsm index (fsm index)")
  case (Inl e)
  then show ?thesis using nb by (simp add: CuckooNewBuffer_def)
next
  case (Inr r)
  obtain ob rest where r: "r = (ob, rest)" by (cases r) auto
  show ?thesis
  proof (cases ob)
    case (Some b')
    then have e: "b = b'" "index2 = index\<lparr>fsm := rest\<rparr>"
      using nb Inr r by (simp_all add: CuckooNewBuffer_def)
    obtain p where p: "read_data_page index b' = Inr p" "\<not> live_page p"
      using CuckooNewBuffer_fsm_free Inr r Some by blast
    have "p \<in> set (dataPages index)"
      using read_data_page_blk [OF p(1)] by (auto simp: in_set_conv_nth intro!: exI [of _ "unat b' - 1"])
    moreover have "read_data_page index2 b = read_data_page index b'"
      unfolding e by (simp add: read_data_page_def)
    then have "read_data_page index2 b = Inr p" using p(1) by simp
    moreover have "\<forall>t. tuple_stored index t \<longrightarrow> tuple_stored index2 t"
      by (simp add: tuple_stored_def e(2))
    ultimately show ?thesis using p(2) by (intro exI [of _ p]) simp
  next
    case None
    let ?n = "length (dataPages index)"
    have g: "\<not> MaxBlockNumber \<le> ?n + 1 + 1"
      using nb Inr r None by (auto simp: CuckooNewBuffer_def split: if_splits)
    then have e: "b = of_nat (?n + 1)"
        "index2 = index\<lparr>fsm := rest, dataPages := dataPages index @ [new_page L]\<rparr>"
      using nb Inr r None by (simp_all add: CuckooNewBuffer_def)
    have u: "unat b = ?n + 1" unfolding e using unat_blkno [of ?n] g by simp
    have rd: "read_data_page index2 b = Inr (new_page L)"
      using u by (simp add: read_data_page_def e(2) nth_append)
    have nl: "\<not> live_page (new_page L)" by (simp add: live_page_def PageIsNew_def new_page_def)
    have keep: "\<forall>t. tuple_stored index t \<longrightarrow> tuple_stored index2 t"
      by (simp add: tuple_stored_def e(2))
    show ?thesis using rd nl keep page_ok_new by (intro exI [of _ "new_page L"]) simp
  qed
qed

lemma insert_new_page_stores:
  assumes L: "layout_ok L" and st: "sizeOfCuckooTuple st = of_nat (sizeof_CuckooTuple L)"
    and pok: "pages_ok L index" and run: "insert_new_page L st index itup = Inr index'"
  shows "tuple_stored index' itup \<and> (\<forall>t. tuple_stored index t \<longrightarrow> tuple_stored index' t)"
proof -
  from run obtain b index2 where nb: "CuckooNewBuffer L index = Inr (b, index2)"
    by (auto simp: insert_new_page_def split: sum.splits)
  obtain page' where ad: "CuckooPageAddItem L st (CuckooInitPage L 0) itup = (True, page')"
    using run nb by (auto simp: insert_new_page_def split: prod.splits bool.splits)
  let ?m = "(metaPage index)\<lparr>nStart := 0, nEnd := 1,
              notFullPage := (notFullPage (metaPage index))[0 := b]\<rparr>"
  have ix: "index' = (write_data_page index2 b page')\<lparr>metaPage := ?m\<rparr>"
    using run nb ad by (simp add: insert_new_page_def)
  obtain p where rd: "read_data_page index2 b = Inr p" and nl: "\<not> live_page p"
    and pk: "page_ok L p \<or> p \<in> set (dataPages index)"
    and keep: "\<forall>t. tuple_stored index t \<longrightarrow> tuple_stored index2 t"
    using CuckooNewBuffer_free [OF nb] by blast
  have pg: "page_ok L p" using pk pok by (auto simp: pages_ok_def list_all_iff)
  have ta: "try_append L st p itup = (True, page')"
    using nl ad by (simp add: try_append_def live_page_def)
  show ?thesis
    unfolding ix using append_write_stored [OF L st pg rd ta, of ?m] keep by blast
qed

lemma insert_slow_stores:
  assumes L: "layout_ok L" and st: "sizeOfCuckooTuple st = of_nat (sizeof_CuckooTuple L)"
    and pok: "pages_ok L index" and run: "insert_slow L st index itup blkno = Inr index'"
  shows "tuple_stored index' itup \<and> (\<forall>t. tuple_stored index t \<longrightarrow> tuple_stored index' t)"
proof -
  let ?m = "metaPage index"
  let ?n1 = "if nStart ?m < nEnd ?m \<and> blkno = notFullPage ?m ! unat (nStart ?m)
             then nStart ?m + 1 else nStart ?m"
  show ?thesis
  proof (cases "insert_walk L st index itup ?n1")
    case (Inl e)
    then show ?thesis using run by (simp add: insert_slow_def Let_def)
  next
    case (Inr r)
    show ?thesis
    proof (cases r)
      case None
      then have "insert_new_page L st index itup = Inr index'"
        using run Inr by (simp add: insert_slow_def Let_def)
      then show ?thesis using insert_new_page_stores [OF L st pok] by simp
    next
      case (Some ix)
      then have ix: "ix = index'" using run Inr by (simp add: insert_slow_def Let_def)
      obtain j page page' where
        rd: "read_data_page index (notFullPage ?m ! unat j) = Inr page"
        and ta: "try_append L st page itup = (True, page')"
        and idx: "index' = (write_data_page index (notFullPage ?m ! unat j) page')
                         \<lparr>metaPage := ?m\<lparr>nStart := j\<rparr>\<rparr>"
        using insert_walk_Some [of L st index itup ?n1 index'] Inr Some ix by blast
      show ?thesis
        unfolding idx
        using append_write_stored [OF L st read_page_ok [OF pok rd] rd ta] .
    qed
  qed
qed

lemma ckinsert_stores:
  assumes L: "layout_ok L" and pok: "pages_ok L index0"
    and init: "initCuckooState L index0 = Inr (st, index)"
    and run: "ckinsert L index0 vals isnull tid = Inr index'"
  shows "tuple_stored index' (CuckooFormTuple st tid vals isnull)
         \<and> (\<forall>t. tuple_stored index0 t \<longrightarrow> tuple_stored index' t)"
proof -
  have st: "sizeOfCuckooTuple st = of_nat (sizeof_CuckooTuple L)"
    and d: "dataPages index = dataPages index0"
    using initCuckooState_opts [OF init] by simp_all
  have pk: "pages_ok L index" using pok d by (simp add: pages_ok_def)
  have ts: "\<And>t. tuple_stored index0 t = tuple_stored index t" by (simp add: tuple_stored_def d)
  let ?m = "metaPage index"
  let ?itup = "CuckooFormTuple st tid vals isnull"
  let ?b = "notFullPage ?m ! unat (nStart ?m)"
  have goal: "tuple_stored index' ?itup \<and> (\<forall>t. tuple_stored index t \<longrightarrow> tuple_stored index' t)"
  proof (cases "nStart ?m < nEnd ?m")
    case False
    then have "insert_slow L st index ?itup InvalidBlockNumber = Inr index'"
      using run init by (simp add: ckinsert_def Let_def)
    then show ?thesis using insert_slow_stores [OF L st pk] by simp
  next
    case True
    then have len: "\<not> length (notFullPage ?m) \<le> unat (nStart ?m)"
      using run init by (auto simp: ckinsert_def Let_def split: if_splits)
    obtain page where rd: "read_data_page index ?b = Inr page"
      using run init True len by (auto simp: ckinsert_def Let_def split: sum.splits)
    obtain ok page' where ta: "try_append L st page ?itup = (ok, page')"
      by (cases "try_append L st page ?itup") auto
    show ?thesis
    proof (cases ok)
      case False
      then have "insert_slow L st index ?itup ?b = Inr index'"
        using run init True len rd ta by (simp add: ckinsert_def Let_def)
      then show ?thesis using insert_slow_stores [OF L st pk] by simp
    next
      case ok: True
      have idx: "index' = write_data_page index ?b page'"
        using run init True len rd ta ok by (simp add: ckinsert_def Let_def)
      have ta': "try_append L st page ?itup = (True, page')" using ta ok by simp
      have w: "(write_data_page index ?b page')\<lparr>metaPage := ?m\<rparr> = write_data_page index ?b page'"
        by (simp add: write_data_page_def)
      have "tuple_stored ((write_data_page index ?b page')\<lparr>metaPage := ?m\<rparr>) ?itup
         \<and> (\<forall>t. tuple_stored index t
                \<longrightarrow> tuple_stored ((write_data_page index ?b page')\<lparr>metaPage := ?m\<rparr>) t)"
        using append_write_stored [OF L st read_page_ok [OF pk rd] rd ta'] .
      then show ?thesis unfolding idx w .
    qed
  qed
  then show ?thesis using ts by simp
qed

lemma ckbulkdelete_keeps:
  assumes init: "initCuckooState L index = Inr (st, index1)" and slots: "slots_ok index"
    and run: "ckbulkdelete L index stats cb = Inr (stats', index')"
    and t: "tuple_stored index t" and alive: "\<not> cb (heapPtr t)"
  shows "tuple_stored index' t"
proof (rule ckbulkdelete_result [OF init slots, of stats cb])
  fix stats2 index2 js
  assume run2: "ckbulkdelete L index stats cb = Inr (stats2, index2)"
    and l: "length (dataPages index2) = length (dataPages index)"
    and v: "\<forall>i < length (dataPages index). vacuumed cb (dataPages index ! i) (dataPages index2 ! i)"
    and "slots_ok index2"
    and kf: "\<forall>i. kept_frame cb (dataPages index ! i) (dataPages index2 ! i)"
  have e: "index2 = index'" using run run2 by simp
  from t obtain i where i: "i < length (dataPages index)" "live_page (dataPages index ! i)"
      "t \<in> set (take (unat (maxoff (dataPages index ! i))) (items (dataPages index ! i)))"
    unfolding tuple_stored_iff by blast
  let ?p = "dataPages index ! i" and ?p' = "dataPages index2 ! i"
  have vp: "vacuumed cb ?p ?p'" using v i(1) by simp
  have k: "t \<in> set (kept_tuples cb ?p)" using i(3) alive by (simp add: kept_tuples_def)
  have "take (unat (maxoff ?p')) (items ?p') = kept_tuples cb ?p
          \<and> unat (maxoff ?p') = length (kept_tuples cb ?p)
          \<and> (dead_count cb ?p = 0 \<longrightarrow> ?p' = ?p)
          \<and> (0 < dead_count cb ?p \<and> kept_tuples cb ?p = [] \<longrightarrow> CuckooPageIsDeleted ?p')"
    using vp unfolding vacuumed_def if_P [OF i(2)] .
  then have tk: "take (unat (maxoff ?p')) (items ?p') = kept_tuples cb ?p"
    by (rule conjunct1)
  have ne: "kept_tuples cb ?p \<noteq> []" using k by auto
  have "pd_upper ?p' = pd_upper ?p" "flags ?p' = flags ?p"
    using kf ne by (simp_all add: kept_frame_def)
  then have lv: "live_page ?p'"
    using i(2) by (simp add: live_page_def PageIsNew_def CuckooPageIsDeleted_def)
  have k': "t \<in> set (take (unat (maxoff ?p')) (items ?p'))" using k tk by simp
  show ?thesis
    unfolding e [symmetric] tuple_stored_iff using i(1) l lv k' by (intro exI [of _ i]) simp
qed

subsection \<open>Rows added by the build, by inserts, and bulk deletes\<close>

lemma initCuckooState_cached:
  assumes "initCuckooState L index0 = Inr (st, index)"
  shows "initCuckooState L index = Inr (st, index)"
  using assms
  by (auto simp: initCuckooState_def split: option.splits if_splits sum.splits)

lemma initCuckooState_fixed_cache:
  assumes "initCuckooState L index = Inr (st, index)"
  shows "\<exists>c. rd_amcache index = Some c"
proof (cases "rd_amcache index")
  case None
  then have "\<exists>c. index\<lparr>rd_amcache := Some c\<rparr> = index"
    using assms
    by (auto simp: initCuckooState_def Let_def split: option.splits if_splits sum.splits)
  then obtain c where "index\<lparr>rd_amcache := Some c\<rparr> = index" by blast
  then have "rd_amcache (index\<lparr>rd_amcache := Some c\<rparr>) = rd_amcache index" by simp
  then have "Some c = rd_amcache index" by simp
  then show ?thesis using None by simp
qed simp

lemma initCuckooState_same:
  assumes init: "initCuckooState L index = Inr (st, index)" and same: "same_descriptor ix index"
  shows "initCuckooState L ix = Inr (st, ix)"
proof -
  obtain c where c: "rd_amcache index = Some c"
    using initCuckooState_fixed_cache [OF init] by blast
  show ?thesis
    using init same c
    by (auto simp: initCuckooState_def same_descriptor_def Let_def split: sum.splits)
qed

lemma CuckooNewBuffer_descriptor:
  "CuckooNewBuffer L index = Inr (b, index2) \<Longrightarrow> same_descriptor index2 index"
  by (auto simp: CuckooNewBuffer_def same_descriptor_def
      split: sum.splits prod.splits option.splits if_splits)

lemma insert_new_page_descriptor:
  "insert_new_page L st index itup = Inr index' \<Longrightarrow> same_descriptor index' index"
  using CuckooNewBuffer_descriptor [of L index]
  by (auto simp: insert_new_page_def same_descriptor_def write_data_page_def
      split: sum.splits prod.splits bool.splits)

lemma insert_slow_descriptor:
  assumes "insert_slow L st index itup blkno = Inr index'"
  shows "same_descriptor index' index"
proof -
  let ?m = "metaPage index"
  let ?n1 = "if nStart ?m < nEnd ?m \<and> blkno = notFullPage ?m ! unat (nStart ?m)
             then nStart ?m + 1 else nStart ?m"
  show ?thesis
  proof (cases "insert_walk L st index itup ?n1")
    case (Inl e)
    then show ?thesis using assms by (simp add: insert_slow_def Let_def)
  next
    case (Inr r)
    show ?thesis
    proof (cases r)
      case None
      then have "insert_new_page L st index itup = Inr index'"
        using assms Inr by (simp add: insert_slow_def Let_def)
      then show ?thesis using insert_new_page_descriptor by blast
    next
      case (Some ix)
      then have ix: "ix = index'" using assms Inr by (simp add: insert_slow_def Let_def)
      obtain j page' where
        "index' = (write_data_page index (notFullPage ?m ! unat j) page')
                         \<lparr>metaPage := ?m\<lparr>nStart := j\<rparr>\<rparr>"
        using insert_walk_Some [of L st index itup ?n1 index'] Inr Some ix by blast
      then show ?thesis by (simp add: same_descriptor_def write_data_page_def)
    qed
  qed
qed

lemma ckinsert_descriptor:
  assumes init: "initCuckooState L index0 = Inr (st, index)"
    and run: "ckinsert L index0 vals isnull tid = Inr index'"
  shows "same_descriptor index' index"
proof -
  let ?m = "metaPage index"
  let ?itup = "CuckooFormTuple st tid vals isnull"
  let ?b = "notFullPage ?m ! unat (nStart ?m)"
  show ?thesis
  proof (cases "nStart ?m < nEnd ?m")
    case False
    then have "insert_slow L st index ?itup InvalidBlockNumber = Inr index'"
      using run init by (simp add: ckinsert_def Let_def)
    then show ?thesis using insert_slow_descriptor by blast
  next
    case True
    then have len: "\<not> length (notFullPage ?m) \<le> unat (nStart ?m)"
      using run init by (auto simp: ckinsert_def Let_def split: if_splits)
    obtain page where rd: "read_data_page index ?b = Inr page"
      using run init True len by (auto simp: ckinsert_def Let_def split: sum.splits)
    obtain ok page' where ta: "try_append L st page ?itup = (ok, page')"
      by (cases "try_append L st page ?itup") auto
    show ?thesis
    proof (cases ok)
      case False
      then have "insert_slow L st index ?itup ?b = Inr index'"
        using run init True len rd ta by (simp add: ckinsert_def Let_def)
      then show ?thesis using insert_slow_descriptor by blast
    next
      case ok: True
      have "index' = write_data_page index ?b page'"
        using run init True len rd ta ok by (simp add: ckinsert_def Let_def)
      then show ?thesis by (simp add: same_descriptor_def write_data_page_def)
    qed
  qed
qed

lemma ckbulkdelete_descriptor:
  assumes init: "initCuckooState L index0 = Inr (st, index)"
    and run: "ckbulkdelete L index0 stats cb = Inr (stats', index')"
  shows "same_descriptor index' index"
  using run init
  by (auto simp: ckbulkdelete_def Let_def same_descriptor_def split: sum.splits prod.splits)

lemma ckinsert_init:
  assumes "ckinsert L index0 vals isnull tid = Inr index'"
  shows "\<exists>st index. initCuckooState L index0 = Inr (st, index)"
  using assms by (cases "initCuckooState L index0") (auto simp: ckinsert_def)

lemma ckbulkdelete_init:
  assumes "ckbulkdelete L index0 stats cb = Inr (stats', index')"
  shows "\<exists>st index. initCuckooState L index0 = Inr (st, index)"
  using assms by (cases "initCuckooState L index0") (auto simp: ckbulkdelete_def)

lemma write_free_stored:
  assumes rd: "read_data_page ix b = Inr p" and nl: "\<not> live_page p" and lv: "live_page q"
  shows "(\<forall>t. tuple_stored ix t \<longrightarrow> tuple_stored (write_data_page ix b q) t)
         \<and> (\<forall>t \<in> set (take (unat (maxoff q)) (items q)). tuple_stored (write_data_page ix b q) t)"
proof -
  let ?ix' = "write_data_page ix b q"
  let ?k = "unat b - 1"
  have b: "1 \<le> unat b" "unat b \<le> length (dataPages ix)" "p = dataPages ix ! ?k"
    using read_data_page_blk [OF rd] by simp_all
  then have k: "?k < length (dataPages ix)" by simp
  have dp: "dataPages ?ix' = (dataPages ix)[?k := q]" by (simp add: write_data_page_def)
  have old: "\<forall>t. tuple_stored ix t \<longrightarrow> tuple_stored ?ix' t"
  proof (intro allI impI)
    fix t assume "tuple_stored ix t"
    then obtain i where i: "i < length (dataPages ix)" "live_page (dataPages ix ! i)"
        "t \<in> set (take (unat (maxoff (dataPages ix ! i))) (items (dataPages ix ! i)))"
      unfolding tuple_stored_iff by blast
    have "i \<noteq> ?k" using i(2) nl b(3) by auto
    then show "tuple_stored ?ix' t" unfolding tuple_stored_iff dp using i by (intro exI [of _ i]) simp
  qed
  have new: "\<forall>t \<in> set (take (unat (maxoff q)) (items q)). tuple_stored ?ix' t"
  proof
    fix t assume "t \<in> set (take (unat (maxoff q)) (items q))"
    then show "tuple_stored ?ix' t"
      unfolding tuple_stored_iff dp using k lv by (intro exI [of _ ?k]) simp
  qed
  show ?thesis using old new by simp
qed

lemma flushCachedPage_stores:
  assumes c: "cache_inv bs" and fl: "flushCachedPage L index bs = Inr index'"
  shows "\<forall>t. build_holds (index, bs) t \<longrightarrow> tuple_stored index' t"
proof -
  from fl obtain b index2 where nb: "CuckooNewBuffer L index = Inr (b, index2)"
    and ix: "index' = write_data_page index2 b (bs_data bs)"
    by (auto simp: flushCachedPage_def split: sum.splits)
  obtain p where rd: "read_data_page index2 b = Inr p" and nl: "\<not> live_page p"
    and keep: "\<forall>t. tuple_stored index t \<longrightarrow> tuple_stored index2 t"
    using CuckooNewBuffer_free [OF nb] by blast
  have lv: "live_page (bs_data bs)" using c by (simp add: cache_inv_def)
  show ?thesis
    unfolding ix using write_free_stored [OF rd nl lv] keep by (auto simp: build_holds_def)
qed

lemma flushCachedPage_descriptor:
  "flushCachedPage L index bs = Inr index' \<Longrightarrow> same_descriptor index' index"
  using CuckooNewBuffer_descriptor [of L index]
  by (auto simp: flushCachedPage_def same_descriptor_def write_data_page_def split: sum.splits)

lemma cache_append:
  assumes L: "layout_ok L" and st: "sizeOfCuckooTuple st = of_nat (sizeof_CuckooTuple L)"
    and pg: "page_ok L p" and lv: "live_page p" and n: "c = int (unat (maxoff p))"
    and ad: "CuckooPageAddItem L st p t = (True, p')"
  shows "live_page p' \<and> c + 1 = int (unat (maxoff p'))
         \<and> take (unat (maxoff p')) (items p') = take (unat (maxoff p)) (items p) @ [t]"
proof (rule CuckooPageAddItem_cases [OF L st pg, of t])
  assume "CuckooPageAddItem L st p t = (False, p)"
  then show ?thesis using ad by simp
next
  fix q
  assume r: "CuckooPageAddItem L st p t = (True, q)" and "page_ok L q"
    and m: "unat (maxoff q) = unat (maxoff p) + 1" and lt: "unat (maxoff p) < page_slots L"
    and fl: "flags q = flags p" and up: "pd_upper q = pd_upper p"
    and it: "items q = (items p)[unat (maxoff p) := t]"
  have e: "q = p'" using r ad by simp
  have len: "unat (maxoff p) < length (items p)" using pg lt by (simp add: page_ok_def)
  have tk: "take (unat (maxoff q)) (items q) = take (unat (maxoff p)) (items p) @ [t]"
    unfolding m it using len by (simp add: take_Suc_conv_app_nth)
  have l: "live_page q" using lv fl up by (simp add: live_page_def PageIsNew_def CuckooPageIsDeleted_def)
  show ?thesis using l tk m n unfolding e [symmetric] by simp
qed

lemma cuckooBuildCallback_holds:
  assumes L: "layout_ok L" and inv: "build_inv L (index, bs)" and c: "cache_inv bs"
    and run: "cuckooBuildCallback L tid vals isnull (index, bs) = Inr (index', bs')"
  shows "cache_inv bs' \<and> same_descriptor index' index
         \<and> build_holds (index', bs') (CuckooFormTuple (bs_ckstate bs) tid vals isnull)
         \<and> (\<forall>t. build_holds (index, bs) t \<longrightarrow> build_holds (index', bs') t)"
proof -
  let ?st = "bs_ckstate bs"
  let ?itup = "CuckooFormTuple ?st tid vals isnull"
  from inv have st: "sizeOfCuckooTuple ?st = of_nat (sizeof_CuckooTuple L)"
    and pg: "page_ok L (bs_data bs)" by (simp_all add: build_inv_def)
  from c have lv: "live_page (bs_data bs)" and n: "bs_count bs = int (unat (maxoff (bs_data bs)))"
    by (simp_all add: cache_inv_def)
  obtain ok p' where ad: "CuckooPageAddItem L ?st (bs_data bs) ?itup = (ok, p')"
    by (cases "CuckooPageAddItem L ?st (bs_data bs) ?itup") auto
  show ?thesis
  proof (cases ok)
    case True
    have e: "index' = index" "bs_data bs' = p'" "bs_count bs' = bs_count bs + 1"
      using run ad True by (auto simp: cuckooBuildCallback_def Let_def)
    have f: "live_page p'" "bs_count bs + 1 = int (unat (maxoff p'))"
        "take (unat (maxoff p')) (items p') = take (unat (maxoff (bs_data bs))) (items (bs_data bs)) @ [?itup]"
      using cache_append [OF L st pg lv n] ad True by simp_all
    show ?thesis using e f by (simp add: cache_inv_def build_holds_def same_descriptor_def)
  next
    case False
    from run ad False obtain ix where fl: "flushCachedPage L index bs = Inr ix"
      by (auto simp: cuckooBuildCallback_def Let_def split: sum.splits)
    obtain ok2 p2 where ad2: "CuckooPageAddItem L ?st (CuckooInitPage L 0) ?itup = (ok2, p2)"
      by (cases "CuckooPageAddItem L ?st (CuckooInitPage L 0) ?itup") auto
    have ok2: ok2
      using run ad False fl ad2 by (cases ok2) (auto simp: cuckooBuildCallback_def Let_def initCachedPage_def)
    have e: "index' = ix" "bs_data bs' = p2" "bs_count bs' = 0 + 1"
      using run ad False fl ad2 ok2 by (auto simp: cuckooBuildCallback_def Let_def initCachedPage_def)
    have m0: "(0::int) = int (unat (maxoff (CuckooInitPage L 0)))" by (simp add: CuckooInitPage_def)
    have f: "live_page p2" "0 + 1 = int (unat (maxoff p2))"
        "take (unat (maxoff p2)) (items p2)
           = take (unat (maxoff (CuckooInitPage L 0))) (items (CuckooInitPage L 0)) @ [?itup]"
      using cache_append [OF L st page_ok_init init_page_live [OF L] m0] ad2 ok2 by simp_all
    have keep: "\<forall>t. build_holds (index, bs) t \<longrightarrow> tuple_stored ix t"
      using flushCachedPage_stores [OF c fl] .
    show ?thesis
      using e f keep flushCachedPage_descriptor [OF fl]
      by (simp add: cache_inv_def build_holds_def)
  qed
qed

lemma build_scan_holds:
  assumes L: "layout_ok L"
  shows "build_inv L acc \<Longrightarrow> cache_inv (snd acc) \<Longrightarrow> build_scan L rows acc = Inr acc' \<Longrightarrow>
         cache_inv (snd acc') \<and> same_descriptor (fst acc') (fst acc)
         \<and> (\<forall>(tid, vals, isnull) \<in> set rows.
               build_holds acc' (CuckooFormTuple (bs_ckstate (snd acc)) tid vals isnull))
         \<and> (\<forall>t. build_holds acc t \<longrightarrow> build_holds acc' t)"
proof (induction rows arbitrary: acc)
  case Nil
  then show ?case by (simp add: same_descriptor_def)
next
  case (Cons row rows)
  obtain tid vals isnull where row: "row = (tid, vals, isnull)" by (cases row) auto
  obtain index bs where acc: "acc = (index, bs)" by (cases acc) auto
  from Cons.prems(3) obtain a1 where
    cb: "cuckooBuildCallback L tid vals isnull (index, bs) = Inr a1"
    and rest: "build_scan L rows a1 = Inr acc'"
    by (auto simp: row acc split: sum.splits)
  obtain index1 bs1 where a1: "a1 = (index1, bs1)" by (cases a1) auto
  have inv: "build_inv L (index, bs)" and c: "cache_inv bs" using Cons.prems acc by simp_all
  have inv1: "build_inv L a1" using cuckooBuildCallback_inv [OF L inv] cb a1 by simp
  have h: "cache_inv bs1" "same_descriptor index1 index"
      "build_holds (index1, bs1) (CuckooFormTuple (bs_ckstate bs) tid vals isnull)"
      "\<forall>t. build_holds (index, bs) t \<longrightarrow> build_holds (index1, bs1) t"
    using cuckooBuildCallback_holds [OF L inv c] cb a1 by simp_all
  have s: "bs_ckstate bs1 = bs_ckstate bs" using cuckooBuildCallback_state cb a1 by blast
  have ih: "cache_inv (snd acc')" "same_descriptor (fst acc') index1"
      "\<forall>(tid, vals, isnull) \<in> set rows.
               build_holds acc' (CuckooFormTuple (bs_ckstate bs) tid vals isnull)"
      "\<forall>t. build_holds (index1, bs1) t \<longrightarrow> build_holds acc' t"
    using Cons.IH [OF inv1 _ rest] h(1) a1 s by simp_all
  have d: "same_descriptor (fst acc') index" using ih(2) h(2) by (simp add: same_descriptor_def)
  show ?case using ih(1,3,4) h(3,4) d by (simp add: row acc)
qed

lemma ckbuild_stores:
  assumes L: "layout_ok L" and run: "ckbuild L nblocks index rows = Inr (res, index')"
    and mem: "(tid, vals, isnull) \<in> set rows"
  shows "\<exists>st. initCuckooState L index' = Inr (st, index')
              \<and> tuple_stored index' (CuckooFormTuple st tid vals isnull)"
proof -
  from run obtain st index1 where init: "initCuckooState L (CuckooInitMetapage L index) = Inr (st, index1)"
    by (auto simp: ckbuild_def split: if_splits sum.splits)
  have f: "sizeOfCuckooTuple st = of_nat (sizeof_CuckooTuple L)"
      "metaPage index1 = metaPage (CuckooInitMetapage L index)"
      "dataPages index1 = dataPages (CuckooInitMetapage L index)"
    using initCuckooState_opts [OF init] by simp_all
  have init1: "initCuckooState L index1 = Inr (st, index1)" using initCuckooState_cached [OF init] .
  let ?bs = "initCachedPage L \<lparr>bs_ckstate = st, indtuples = 0, bs_data = new_page L, bs_count = 0\<rparr>"
  have inv0: "build_inv L (index1, ?bs)"
    using f page_ok_init [of L 0]
    by (simp add: build_inv_def initCachedPage_def CuckooInitMetapage_def CuckooFillMetapage_def
        pages_ok_def MaxBlockNumber_def)
  have c0: "cache_inv (snd (index1, ?bs))"
    using init_page_live [OF L] by (simp add: cache_inv_def initCachedPage_def CuckooInitPage_def)
  from run init obtain index2 bs' where sc: "build_scan L rows (index1, ?bs) = Inr (index2, bs')"
    by (auto simp: ckbuild_def Let_def split: if_splits sum.splits)
  have h: "cache_inv bs'" "same_descriptor index2 index1"
      "\<forall>(tid, vals, isnull) \<in> set rows. build_holds (index2, bs') (CuckooFormTuple st tid vals isnull)"
    using build_scan_holds [OF L inv0 c0 sc] by (simp_all add: initCachedPage_def)
  have held: "build_holds (index2, bs') (CuckooFormTuple st tid vals isnull)"
    using h(3) mem by auto
  have fin: "same_descriptor index' index2 \<and> tuple_stored index' (CuckooFormTuple st tid vals isnull)"
  proof (cases "bs_count bs' > 0")
    case True
    then have fl: "flushCachedPage L index2 bs' = Inr index'"
      using run init sc by (auto simp: ckbuild_def Let_def split: if_splits sum.splits)
    show ?thesis
      using flushCachedPage_stores [OF h(1) fl] flushCachedPage_descriptor [OF fl] held by simp
  next
    case False
    then have e: "index' = index2"
      using run init sc by (auto simp: ckbuild_def Let_def split: if_splits sum.splits)
    have "bs_count bs' = int (unat (maxoff (bs_data bs')))"
      using h(1) unfolding cache_inv_def by (rule conjunct2)
    then have "unat (maxoff (bs_data bs')) = 0" using False by linarith
    then have "tuple_stored index2 (CuckooFormTuple st tid vals isnull)"
      using held by (simp add: build_holds_def)
    then show ?thesis using e by (simp add: same_descriptor_def)
  qed
  have "same_descriptor index' index1" using fin h(2) by (simp add: same_descriptor_def)
  then have "initCuckooState L index' = Inr (st, index')" using initCuckooState_same [OF init1] by simp
  then show ?thesis using fin by blast
qed

lemma pages_ok_slots: "pages_ok L index \<Longrightarrow> slots_ok index"
  by (auto simp: pages_ok_def slots_ok_def page_ok_def list_all_iff)

lemma reachable_pages_ok:
  assumes L: "layout_ok L" and r: "reachable L index"
    and init: "initCuckooState L index = Inr (st, index1)"
  shows "pages_ok L index"
proof -
  have "sizeOfCuckooTuple st = of_nat (sizeof_CuckooTuple L)"
    using initCuckooState_opts [OF init] by simp
  then show ?thesis using reachable_inv [OF L _ r] by (simp add: freelist_inv_def)
qed

lemma row_indexed_stored:
  assumes L: "layout_ok L" and row: "row_indexed L tid vals isnull index"
  shows "reachable L index
         \<and> (\<exists>st. initCuckooState L index = Inr (st, index)
                 \<and> tuple_stored index (CuckooFormTuple st tid vals isnull))"
  using row
proof (induction rule: row_indexed.induct)
  case (built_with nblocks index rows res index')
  show ?case
    using ckbuild_reachable [OF L built_with(1)] ckbuild_stores [OF L built_with(1) built_with(2)]
    by simp
next
  case (added index index')
  obtain st index1 where init: "initCuckooState L index = Inr (st, index1)"
    using ckinsert_init [OF added(2)] by blast
  have pok: "pages_ok L index" using reachable_pages_ok [OF L added(1) init] .
  have init1: "initCuckooState L index1 = Inr (st, index1)" using initCuckooState_cached [OF init] .
  have "initCuckooState L index' = Inr (st, index')"
    using initCuckooState_same [OF init1 ckinsert_descriptor [OF init added(2)]] .
  moreover have "tuple_stored index' (CuckooFormTuple st tid vals isnull)"
    using ckinsert_stores [OF L pok init added(2)] by simp
  moreover have "reachable L index'" using reachable.inserted [OF added(1) added(2)] .
  ultimately show ?case by blast
next
  case (other_insert index vals' isnull' tid' index')
  then obtain st where r: "reachable L index" and init: "initCuckooState L index = Inr (st, index)"
    and t: "tuple_stored index (CuckooFormTuple st tid vals isnull)" by blast
  have pok: "pages_ok L index" using reachable_pages_ok [OF L r init] .
  have "initCuckooState L index' = Inr (st, index')"
    using initCuckooState_same [OF init ckinsert_descriptor [OF init other_insert(2)]] .
  moreover have "tuple_stored index' (CuckooFormTuple st tid vals isnull)"
    using ckinsert_stores [OF L pok init other_insert(2)] t by simp
  moreover have "reachable L index'" using reachable.inserted [OF r other_insert(2)] .
  ultimately show ?case by blast
next
  case (survived index stats callback stats' index')
  then obtain st where r: "reachable L index" and init: "initCuckooState L index = Inr (st, index)"
    and t: "tuple_stored index (CuckooFormTuple st tid vals isnull)" by blast
  have pok: "pages_ok L index" using reachable_pages_ok [OF L r init] .
  have alive: "\<not> callback (heapPtr (CuckooFormTuple st tid vals isnull))"
    using survived(3) by (simp add: CuckooFormTuple_def)
  have "initCuckooState L index' = Inr (st, index')"
    using initCuckooState_same [OF init ckbulkdelete_descriptor [OF init survived(2)]] .
  moreover have "tuple_stored index' (CuckooFormTuple st tid vals isnull)"
    using ckbulkdelete_keeps [OF init pages_ok_slots [OF pok] survived(2) t alive] .
  moreover have "reachable L index'" using reachable.vacuumed [OF r survived(2)] .
  ultimately show ?case by blast
qed

text \<open>
  C1. No false negatives. Let a row have been added to the index, by the build or by
  \<open>ckinsert\<close>, its tuple formed by \<open>CuckooFormTuple\<close> with the fingerprint
  \<open>computeFingerprint\<close> gives for its column values, and let no bulk delete since have been told
  that the row is dead. A scan of the index whose keys supply exactly the row's non-null
  column values adds the row's locator to the bitmap, and the returned total counts every
  locator the scan added.
\<close>

theorem no_false_negatives:
  assumes L: "layout_ok L"
    and row: "row_indexed L tid vals isnull index"
    and len: "length vals = nat (natts index)"
    and scan: "ckbeginscan L index keys0 = Inr (scan0, index1)"
    and inv: "scan_inv scan" and st: "so_state scan = so_state scan0"
    and sup: "keys_supply (keyData scan) vals isnull"
  shows "\<exists>ntids scan' new. ckgetbitmap index1 scan tbm = Inr (ntids, scan', tbm @ new)
           \<and> tid \<in> set new \<and> ntids = int (length new)"
proof -
  obtain s where r: "reachable L index" and init: "initCuckooState L index = Inr (s, index)"
    and t: "tuple_stored index (CuckooFormTuple s tid vals isnull)"
    using row_indexed_stored [OF L row] by blast
  have e: "so_state scan0 = s" "index1 = index"
    using scan init by (auto simp: ckbeginscan_def)
  have n: "nColumns s = natts index"
    using init by (auto simp: initCuckooState_def Let_def split: option.splits if_splits sum.splits)
  have slots: "slots_ok index" using pages_ok_slots [OF reachable_pages_ok [OF L r init]] .
  have len': "length vals = nat (nColumns (so_state scan))" using len n st e by simp
  have t': "tuple_stored index (CuckooFormTuple (so_state scan) tid vals isnull)"
    using t st e by simp
  show ?thesis unfolding e using stored_tuple_found [OF inv slots len' sup t'] .
qed

theorem no_false_negatives_witness:
  "layout_ok pg_default
   \<and> row_indexed pg_default demo_tid [42] [False] (demo_filled (Suc 1))
   \<and> length [42 :: Datum] = nat (natts (demo_filled (Suc 1)))
   \<and> ckbeginscan pg_default (demo_filled (Suc 1)) [\<lparr>sk_flags = 0, sk_attno = 1, sk_argument = 42\<rparr>]
        = Inr (demo_scan [\<lparr>sk_flags = 0, sk_attno = 1, sk_argument = 42\<rparr>], demo_filled (Suc 1))
   \<and> scan_inv (demo_scan [\<lparr>sk_flags = 0, sk_attno = 1, sk_argument = 42\<rparr>])
   \<and> keys_supply [\<lparr>sk_flags = 0, sk_attno = 1, sk_argument = 42\<rparr>] [42] [False]
   \<and> (\<exists>ntids scan' new.
         ckgetbitmap (demo_filled (Suc 1)) (demo_scan [\<lparr>sk_flags = 0, sk_attno = 1, sk_argument = 42\<rparr>]) []
           = Inr (ntids, scan', new) \<and> demo_tid \<in> set new \<and> ntids = int (length new))"
proof -
  let ?ks = "[\<lparr>sk_flags = 0, sk_attno = 1, sk_argument = 42\<rparr>]"
  have r1: "row_indexed pg_default demo_tid [42] [False] (demo_filled (Suc 0))"
    using row_indexed.added [OF demo_built_reachable demo_first_insert] .
  have ins: "ckinsert pg_default (demo_filled (Suc 0)) [42] [False] demo_tid = Inr (demo_filled (Suc 1))"
    using demo_next_insert [of "Suc 0"] by simp
  have row: "row_indexed pg_default demo_tid [42] [False] (demo_filled (Suc 1))"
    using row_indexed.other_insert [OF r1 ins] .
  have len: "length [42 :: Datum] = nat (natts (demo_filled (Suc 1)))"
    by (simp add: demo_filled_def demo_built_def CuckooInitMetapage_def demo_rel_def)
  have bs: "ckbeginscan pg_default (demo_filled (Suc 1)) ?ks = Inr (demo_scan ?ks, demo_filled (Suc 1))"
    by (simp add: ckbeginscan_def demo_filled_init demo_scan_def)
  have sup: "keys_supply (keyData (demo_scan ?ks)) [42] [False]"
    by (simp add: keys_supply_def key_of_row_def null_key_def SK_ISNULL_def demo_scan_def)
  show ?thesis
    using no_false_negatives [OF layout_ok_default row len bs demo_scan_inv refl sup, of "[]"]
      layout_ok_default row len bs demo_scan_inv [of ?ks] sup
    by (simp add: demo_scan_def)
qed

end
